theory Spec2Isabelle
  imports Main "HOL-Library.Multiset"
begin

section \<open>Go strings, as byte sequences\<close>

text \<open>
  A Go \<open>string\<close> is a sequence of bytes; it is modelled as \<open>string\<close> (a list of
  8-bit characters). The functions of package \<open>strings\<close> that the matcher calls are
  given on bytes: \<open>TrimSpace\<close> strips the six ASCII white-space bytes and \<open>ToLower\<close>
  maps the ASCII capitals. On text that holds only ASCII this is what Go computes;
  Unicode white space and case mapping beyond ASCII are outside the model.
\<close>

definition isSpace :: "char \<Rightarrow> bool" where
  "isSpace c = (c \<in> set [CHR 0x09, CHR 0x0A, CHR 0x0B, CHR 0x0C, CHR 0x0D, CHR 0x20])"

definition TrimSpace :: "string \<Rightarrow> string" where
  "TrimSpace s = rev (dropWhile isSpace (rev (dropWhile isSpace s)))"

definition lowerByte :: "char \<Rightarrow> char" where
  "lowerByte c =
     (case map_of (zip ''ABCDEFGHIJKLMNOPQRSTUVWXYZ'' ''abcdefghijklmnopqrstuvwxyz'') c of
        Some d \<Rightarrow> d
      | None \<Rightarrow> c)"

definition ToLower :: "string \<Rightarrow> string" where
  "ToLower s = map lowerByte s"

fun HasPrefix :: "string \<Rightarrow> string \<Rightarrow> bool" where
  "HasPrefix s [] = True"
| "HasPrefix [] (p # ps) = False"
| "HasPrefix (c # s) (p # ps) = (c = p \<and> HasPrefix s ps)"

fun Contains :: "string \<Rightarrow> string \<Rightarrow> bool" where
  "Contains [] sub = (sub = [])"
| "Contains (c # s) sub = (HasPrefix (c # s) sub \<or> Contains s sub)"

text \<open>
  \<open>strings.Split(s, sep)\<close> for a separator of one byte (the program splits on
  \<open>","\<close> and on \<open>" "\<close>): the fields between the separators, at least one field.
\<close>

fun Split :: "string \<Rightarrow> char \<Rightarrow> string list" where
  "Split [] sep = [[]]"
| "Split (c # s) sep =
     (if c = sep then [] # Split s sep
      else (case Split s sep of
              [] \<Rightarrow> [[c]]
            | f # fs \<Rightarrow> (c # f) # fs))"

text \<open>
  \<open>strings.ReplaceAll(s, old, new)\<close>: the non-overlapping occurrences of \<open>old\<close>
  are replaced from left to right; an empty \<open>old\<close> matches before every byte and at
  the end.
\<close>

function replaceFrom :: "string \<Rightarrow> string \<Rightarrow> string \<Rightarrow> string" where
  "replaceFrom [] old new = []"
| "replaceFrom (c # s) old new =
     (if old \<noteq> [] \<and> HasPrefix (c # s) old
      then new @ replaceFrom (drop (length old) (c # s)) old new
      else c # replaceFrom s old new)"
  by pat_completeness auto
termination
  by (relation "measure (\<lambda>(s, old, new). length s)") auto

definition ReplaceAll :: "string \<Rightarrow> string \<Rightarrow> string \<Rightarrow> string" where
  "ReplaceAll s old new =
     (if old = [] then new @ concat (map (\<lambda>c. c # new) s) else replaceFrom s old new)"

section \<open>Rules, observations and the rule index\<close>

record Rule =
  AppName :: string
  WindowName :: string
  Input :: string
  Enabled :: bool
  Priority :: int

record WindowInfo =
  wAppName :: string
  wAppPath :: string
  wWindowName :: string
  wPID :: int

text \<open>
  \<open>ruleMap map[string][]Rule\<close>. The map is kept as an association list with distinct
  keys, in the order the keys were first inserted; \<open>map_of\<close> is the lookup.
  The order in which Go's \<open>range\<close> visits the keys of a map is not specified by the
  language and differs from one loop to the next, so every loop over the keys
  takes the visiting order as an argument.
\<close>

type_synonym ruleMap = "(string \<times> Rule list) list"

definition rulesFor :: "ruleMap \<Rightarrow> string \<Rightarrow> Rule list" where
  "rulesFor m k = (case map_of m k of None \<Rightarrow> [] | Some rs \<Rightarrow> rs)"

text \<open>\<open>ms.ruleMap[appName] = append(ms.ruleMap[appName], rule)\<close>\<close>

fun appendRule :: "string \<Rightarrow> Rule \<Rightarrow> ruleMap \<Rightarrow> ruleMap" where
  "appendRule k r [] = [(k, [r])]"
| "appendRule k r ((k', rs) # m) =
     (if k = k' then (k', rs @ [r]) # m else (k', rs) # appendRule k r m)"

text \<open>The loop over \<open>appNames\<close>, the fields of one rule's \<open>AppName\<close>.\<close>

fun addAppNames :: "Rule \<Rightarrow> string list \<Rightarrow> ruleMap \<Rightarrow> ruleMap" where
  "addAppNames rule [] m = m"
| "addAppNames rule (appName # appNames) m =
     addAppNames rule appNames
       (if TrimSpace appName \<noteq> [] then appendRule (TrimSpace appName) rule m else m)"

text \<open>The loop over \<open>ms.config.Rules\<close>.\<close>

fun collectRules :: "Rule list \<Rightarrow> ruleMap \<Rightarrow> ruleMap" where
  "collectRules [] m = m"
| "collectRules (rule # rules) m =
     collectRules rules
       (if \<not> Enabled rule then m
        else addAppNames rule (Split (AppName rule) CHR '','') m)"

text \<open>
  The two nested loops that order one key's rules: position \<open>i\<close> is compared with
  every later position \<open>j\<close>, and the two entries are exchanged when the entry at
  \<open>i\<close> has the greater priority.
\<close>

function sortInner :: "nat \<Rightarrow> nat \<Rightarrow> Rule list \<Rightarrow> Rule list" where
  "sortInner i j rules =
     (if j < length rules
      then sortInner i (j + 1)
             (if Priority (rules ! i) > Priority (rules ! j)
              then rules[i := rules ! j, j := rules ! i]
              else rules)
      else rules)"
  by pat_completeness auto
termination
  by (relation "measure (\<lambda>(i, j, rules). length rules - j)") auto

declare sortInner.simps [simp del]

lemma length_sortInner: "length (sortInner i j rules) = length rules"
proof (induction i j rules rule: sortInner.induct)
  case (1 i j rules)
  show ?case
  proof (cases "j < length rules")
    case True
    with "1" show ?thesis
      by (subst sortInner.simps) (simp split: if_splits)
  next
    case False
    then show ?thesis
      by (subst sortInner.simps) simp
  qed
qed

function sortOuter :: "nat \<Rightarrow> Rule list \<Rightarrow> Rule list" where
  "sortOuter i rules =
     (if int i < int (length rules) - 1
      then sortOuter (i + 1) (sortInner i (i + 1) rules)
      else rules)"
  by pat_completeness auto
termination
  by (relation "measure (\<lambda>(i, rules). length rules - i)") (auto simp: length_sortInner)

declare sortOuter.simps [simp del]

definition sortRules :: "Rule list \<Rightarrow> Rule list" where
  "sortRules rules = sortOuter 0 rules"

definition buildRuleMap :: "Rule list \<Rightarrow> ruleMap" where
  "buildRuleMap rules = map (\<lambda>(k, rs). (k, sortRules rs)) (collectRules rules [])"

section \<open>Matching\<close>

definition windowNameMatches :: "string \<Rightarrow> string \<Rightarrow> bool" where
  "windowNameMatches currentWindowName ruleWindowName =
     (if ruleWindowName = [] then True
      else let cur = ToLower (TrimSpace currentWindowName);
               pat = ToLower (TrimSpace ruleWindowName)
           in if Contains pat ''*''
              then Contains cur (ReplaceAll (ReplaceAll pat ''*'' ''.*'') ''.*'' '''')
              else Contains cur pat)"

definition appNameMatches :: "string \<Rightarrow> string \<Rightarrow> bool" where
  "appNameMatches currentAppName ruleAppName =
     (let cur = ToLower (TrimSpace currentAppName);
          rul = ToLower (TrimSpace ruleAppName)
      in if cur = rul then True
         else if Contains cur rul \<or> Contains rul cur then True
         else list_ex (\<lambda>part. TrimSpace part \<noteq> [] \<and> Contains cur part) (Split rul CHR '' ''))"

text \<open>The loop \<open>for _, rule := range rules\<close> that returns the first rule whose window pattern matches.\<close>

fun firstWindowMatch :: "string \<Rightarrow> Rule list \<Rightarrow> Rule option" where
  "firstWindowMatch wn [] = None"
| "firstWindowMatch wn (rule # rules) =
     (if windowNameMatches wn (WindowName rule) then Some rule
      else firstWindowMatch wn rules)"

text \<open>
  The fuzzy loop \<open>for appName, rules := range ms.ruleMap\<close>, on the keys in the
  order \<open>keys\<close> in which the runtime visits them.
\<close>

fun fuzzyPhase :: "string list \<Rightarrow> ruleMap \<Rightarrow> WindowInfo \<Rightarrow> Rule option" where
  "fuzzyPhase [] m window = None"
| "fuzzyPhase (appName # keys) m window =
     (if appNameMatches (wAppName window) appName
      then (case firstWindowMatch (wWindowName window) (rulesFor m appName) of
              Some rule \<Rightarrow> Some rule
            | None \<Rightarrow> fuzzyPhase keys m window)
      else fuzzyPhase keys m window)"

definition exactPhase :: "ruleMap \<Rightarrow> WindowInfo \<Rightarrow> Rule option" where
  "exactPhase m window =
     (case map_of m (wAppName window) of
        None \<Rightarrow> None
      | Some rules \<Rightarrow> firstWindowMatch (wWindowName window) rules)"

text \<open>
  \<open>MatchWindow\<close>; the argument \<open>None\<close> is the nil pointer, and \<open>keys\<close> is the
  order in which this call's \<open>range\<close> over the index visits its keys.
\<close>

definition MatchWindow :: "string list \<Rightarrow> ruleMap \<Rightarrow> WindowInfo option \<Rightarrow> Rule option" where
  "MatchWindow keys m window =
     (case window of
        None \<Rightarrow> None
      | Some w \<Rightarrow>
          (case exactPhase m w of
             Some rule \<Rightarrow> Some rule
           | None \<Rightarrow> fuzzyPhase keys m w))"

section \<open>The exact phase returns a candidate of lowest priority\<close>

text \<open>
  \<open>appTokens r\<close> are the keys under which \<open>buildRuleMap\<close> files the rule \<open>r\<close>: the
  trimmed, non-empty fields of its \<open>AppName\<close>. A rule is an exact candidate for an
  observation when it is enabled, the observed application name is one of its keys and its
  window pattern matches. \<open>specExactChoice\<close> follows the specification's words: of the
  enabled rules whose application pattern equals the observed name and whose window pattern
  matches, the one of lowest priority, and of several with that priority the first of the
  original list.
\<close>

definition appTokens :: "Rule \<Rightarrow> string list" where
  "appTokens r = filter (\<lambda>t. t \<noteq> []) (map TrimSpace (Split (AppName r) CHR '',''))"

definition byPriority :: "Rule \<Rightarrow> Rule \<Rightarrow> bool" where
  "byPriority a b = (Priority a \<le> Priority b)"

definition exactCandidate :: "Rule list \<Rightarrow> WindowInfo \<Rightarrow> Rule \<Rightarrow> bool" where
  "exactCandidate rules w r =
     (r \<in> set rules \<and> Enabled r \<and> wAppName w \<in> set (appTokens r) \<and>
      windowNameMatches (wWindowName w) (WindowName r))"

definition tieRuleA :: Rule where
  "tieRuleA = \<lparr>AppName = ''x'', WindowName = '''', Input = ''A'', Enabled = True, Priority = 2\<rparr>"

definition tieRuleB :: Rule where
  "tieRuleB = \<lparr>AppName = ''x'', WindowName = '''', Input = ''B'', Enabled = True, Priority = 2\<rparr>"

definition tieRuleC :: Rule where
  "tieRuleC = \<lparr>AppName = ''x'', WindowName = ''zzz'', Input = ''C'', Enabled = True, Priority = 1\<rparr>"

definition tieWindow :: WindowInfo where
  "tieWindow = \<lparr>wAppName = ''x'', wAppPath = '''', wWindowName = '''', wPID = 1\<rparr>"

definition specCandidates :: "Rule list \<Rightarrow> WindowInfo \<Rightarrow> Rule list" where
  "specCandidates rules w =
     filter (\<lambda>r. Enabled r \<and> AppName r = wAppName w \<and>
                 windowNameMatches (wWindowName w) (WindowName r)) rules"

definition specExactChoice :: "Rule list \<Rightarrow> WindowInfo \<Rightarrow> Rule option" where
  "specExactChoice rules w =
     (case specCandidates rules w of
        [] \<Rightarrow> None
      | c # cs \<Rightarrow> find (\<lambda>r. Priority r = fold min (map Priority cs) (Priority c)) (c # cs))"

lemma map_of_appendRule:
  "map_of (appendRule k r m) = (map_of m)(k \<mapsto> rulesFor m k @ [r])"
  by (induction m) (auto simp: rulesFor_def fun_eq_iff)

lemma rulesFor_appendRule:
  "rulesFor (appendRule k r m) k' = (if k' = k then rulesFor m k @ [r] else rulesFor m k')"
  by (simp add: rulesFor_def map_of_appendRule)

lemma set_rulesFor_addAppNames:
  "set (rulesFor (addAppNames r as m) k) =
     set (rulesFor m k) \<union> (if k \<noteq> [] \<and> k \<in> TrimSpace ` set as then {r} else {})"
  by (induction as arbitrary: m) (auto simp: rulesFor_appendRule)

lemma set_rulesFor_collectRules:
  "set (rulesFor (collectRules rules m) k) =
     set (rulesFor m k) \<union> {r \<in> set rules. Enabled r \<and> k \<in> set (appTokens r)}"
  by (induction rules arbitrary: m) (auto simp: set_rulesFor_addAppNames appTokens_def)

lemma map_of_sorted_aux:
  "map_of (map (\<lambda>(k, rs). (k, f rs)) m) k = map_option f (map_of m k)"
  by (induction m) auto

lemma map_of_buildRuleMap:
  "map_of (buildRuleMap rules) k = map_option sortRules (map_of (collectRules rules []) k)"
  unfolding buildRuleMap_def by (rule map_of_sorted_aux)

lemma mset_sortInner: "i < j \<Longrightarrow> mset (sortInner i j rules) = mset rules"
proof (induction i j rules rule: sortInner.induct)
  case (1 i j rules)
  show ?case
  proof (cases "j < length rules")
    case True
    let ?r = "if Priority (rules ! i) > Priority (rules ! j)
              then rules[i := rules ! j, j := rules ! i] else rules"
    have "mset ?r = mset rules"
      using True "1.prems" by (simp add: mset_swap)
    moreover have "mset (sortInner i (j + 1) ?r) = mset ?r"
      using "1.IH"[OF True] "1.prems" by simp
    ultimately show ?thesis
      using True by (subst sortInner.simps) simp
  next
    case False
    then show ?thesis by (subst sortInner.simps) simp
  qed
qed

lemma take_sortInner: "i < j \<Longrightarrow> take i (sortInner i j rules) = take i rules"
proof (induction i j rules rule: sortInner.induct)
  case (1 i j rules)
  show ?case
  proof (cases "j < length rules")
    case True
    let ?r = "if Priority (rules ! i) > Priority (rules ! j)
              then rules[i := rules ! j, j := rules ! i] else rules"
    have "take i ?r = take i rules"
      using True "1.prems" by simp
    moreover have "take i (sortInner i (j + 1) ?r) = take i ?r"
      using "1.IH"[OF True] "1.prems" by simp
    ultimately show ?thesis
      using True by (subst sortInner.simps) simp
  next
    case False
    then show ?thesis by (subst sortInner.simps) simp
  qed
qed

lemma sortInner_least:
  "i < j \<Longrightarrow> \<forall>l. i < l \<and> l < j \<and> l < length rules \<longrightarrow> Priority (rules ! i) \<le> Priority (rules ! l) \<Longrightarrow>
   i < k \<Longrightarrow> k < length rules \<Longrightarrow>
   Priority (sortInner i j rules ! i) \<le> Priority (sortInner i j rules ! k)"
proof (induction i j rules rule: sortInner.induct)
  case (1 i j rules)
  show ?case
  proof (cases "j < length rules")
    case True
    let ?r = "if Priority (rules ! i) > Priority (rules ! j)
              then rules[i := rules ! j, j := rules ! i] else rules"
    have len: "length ?r = length rules" by simp
    have inv: "\<forall>l. i < l \<and> l < j + 1 \<and> l < length ?r \<longrightarrow> Priority (?r ! i) \<le> Priority (?r ! l)"
    proof (intro allI impI)
      fix l assume l: "i < l \<and> l < j + 1 \<and> l < length ?r"
      show "Priority (?r ! i) \<le> Priority (?r ! l)"
      proof (cases "l = j")
        case True
        then show ?thesis using l \<open>j < length rules\<close> "1.prems"(1)
          by (auto simp: nth_list_update)
      next
        case False
        then have lj: "l < j" using l by simp
        have ll: "l < length rules" using l by (simp split: if_splits)
        have "Priority (rules ! i) \<le> Priority (rules ! l)"
          using "1.prems"(2) l lj ll by blast
        then show ?thesis using l lj \<open>j < length rules\<close> "1.prems"(1)
          by (auto simp: nth_list_update)
      qed
    qed
    have "Priority (sortInner i (j + 1) ?r ! i) \<le> Priority (sortInner i (j + 1) ?r ! k)"
      using "1.IH"[OF True _ inv] "1.prems" len by simp
    then show ?thesis
      using True by (subst (1 2) sortInner.simps) simp
  next
    case False
    then show ?thesis using "1.prems" by (subst (1 2) sortInner.simps) simp
  qed
qed

lemma nth_sortInner_least:
  "i < j \<Longrightarrow> j = i + 1 \<Longrightarrow> i < k \<Longrightarrow> k < length rules \<Longrightarrow>
   Priority (sortInner i j rules ! i) \<le> Priority (sortInner i j rules ! k)"
  by (rule sortInner_least) auto

lemma sortOuter_inv:
  "i \<le> length rules \<Longrightarrow> sorted_wrt byPriority (take i rules) \<Longrightarrow>
   \<forall>a \<in> set (take i rules). \<forall>b \<in> set (drop i rules). byPriority a b \<Longrightarrow>
   sorted_wrt byPriority (sortOuter i rules) \<and> mset (sortOuter i rules) = mset rules"
proof (induction i rules rule: sortOuter.induct)
  case (1 i rules)
  show ?case
  proof (cases "int i < int (length rules) - 1")
    case True
    let ?r = "sortInner i (i + 1) rules"
    have len: "length ?r = length rules" by (rule length_sortInner)
    have tk: "take i ?r = take i rules" by (rule take_sortInner) simp
    have ms: "mset ?r = mset rules" by (rule mset_sortInner) simp
    have il: "i < length rules" using True by simp
    have "mset (take i ?r) + mset (drop i ?r) = mset (take i rules) + mset (drop i rules)"
      using ms by (metis append_take_drop_id mset_append)
    then have msd: "mset (drop i ?r) = mset (drop i rules)" using tk by simp
    then have sd: "set (drop i ?r) = set (drop i rules)" by (metis set_mset_mset)
    have least: "\<forall>k. i < k \<and> k < length rules \<longrightarrow> byPriority (?r ! i) (?r ! k)"
      unfolding byPriority_def using nth_sortInner_least[of i "i + 1" _ rules] by simp
    have ri: "?r ! i \<in> set (drop i ?r)"
      using il len by (metis Cons_nth_drop_Suc list.set_intros(1))
    have tk1: "take (i + 1) ?r = take i rules @ [?r ! i]"
      using il len tk by (simp add: take_Suc_conv_app_nth)
    have s1: "sorted_wrt byPriority (take (i + 1) ?r)"
      using "1.prems"(2,3) ri sd tk1 by (simp add: sorted_wrt_append)
    have sub: "set (drop (i + 1) ?r) \<subseteq> set (drop i rules)"
      using sd by (metis set_drop_subset_set_drop le_add1)
    have s2: "\<forall>a \<in> set (take (i + 1) ?r). \<forall>b \<in> set (drop (i + 1) ?r). byPriority a b"
    proof (intro ballI)
      fix a b assume a: "a \<in> set (take (i + 1) ?r)" and b: "b \<in> set (drop (i + 1) ?r)"
      from a have "a \<in> set (take i rules) \<or> a = ?r ! i" using tk1 by auto
      then show "byPriority a b"
      proof
        assume "a \<in> set (take i rules)"
        then show ?thesis using "1.prems"(3) b sub by blast
      next
        assume ai: "a = ?r ! i"
        from b obtain n where n: "n < length (drop (i + 1) ?r)" "b = drop (i + 1) ?r ! n"
          by (metis in_set_conv_nth)
        have nl: "i + 1 + n < length rules" using n(1) len by simp
        have "b = ?r ! (i + 1 + n)" using n nl len by simp
        moreover have "byPriority (?r ! i) (?r ! (i + 1 + n))"
          using least nl by simp
        ultimately show ?thesis using ai by simp
      qed
    qed
    have "sorted_wrt byPriority (sortOuter (i + 1) ?r) \<and> mset (sortOuter (i + 1) ?r) = mset ?r"
      using "1.IH"[OF True _ s1 s2] il len by simp
    then show ?thesis using True ms by (subst (1 2) sortOuter.simps) simp
  next
    case False
    then have "length rules - i \<le> 1" by linarith
    then have "drop i rules = [] \<or> (\<exists>x. drop i rules = [x])"
      by (cases "drop i rules") (auto simp: length_drop[symmetric] simp del: length_drop)
    then have "sorted_wrt byPriority (take i rules @ drop i rules)"
      using "1.prems"(2,3) unfolding sorted_wrt_append by auto
    then have "sorted_wrt byPriority rules" by simp
    then show ?thesis using False by (subst (1 2) sortOuter.simps) simp
  qed
qed

lemma sortRules_sorted: "sorted_wrt byPriority (sortRules rules)"
  unfolding sortRules_def using sortOuter_inv[of 0 rules] by simp

lemma mset_sortRules: "mset (sortRules rules) = mset rules"
  unfolding sortRules_def using sortOuter_inv[of 0 rules] by simp

lemma Split_no_sep: "sep \<notin> set s \<Longrightarrow> Split s sep = [s]"
  by (induction s) auto

lemma appTokens_plain:
  "AppName r = a \<Longrightarrow> a \<noteq> [] \<Longrightarrow> TrimSpace a = a \<Longrightarrow> CHR '','' \<notin> set a \<Longrightarrow> appTokens r = [a]"
  by (simp add: appTokens_def Split_no_sep)

lemma rulesFor_Nil: "rulesFor [] k = []"
  by (simp add: rulesFor_def)

lemma exactPhase_rulesFor:
  "exactPhase m w = firstWindowMatch (wWindowName w) (rulesFor m (wAppName w))"
  by (simp add: exactPhase_def rulesFor_def split: option.splits)

lemma rulesFor_buildRuleMap:
  "rulesFor (buildRuleMap rules) k = sortRules (rulesFor (collectRules rules []) k)"
proof (cases "map_of (collectRules rules []) k")
  case None
  then show ?thesis
    by (simp add: rulesFor_def map_of_buildRuleMap sortRules_def sortOuter.simps)
next
  case (Some rs)
  then show ?thesis by (simp add: rulesFor_def map_of_buildRuleMap)
qed

lemma firstWindowMatch_exists:
  "r0 \<in> set rs \<Longrightarrow> windowNameMatches wn (WindowName r0) \<Longrightarrow> firstWindowMatch wn rs \<noteq> None"
  by (induction rs) auto

lemma firstWindowMatch_sorted:
  "sorted_wrt byPriority rs \<Longrightarrow> firstWindowMatch wn rs = Some r \<Longrightarrow>
   r \<in> set rs \<and> windowNameMatches wn (WindowName r) \<and>
   (\<forall>r' \<in> set rs. windowNameMatches wn (WindowName r') \<longrightarrow> Priority r \<le> Priority r')"
  by (induction rs) (auto simp: byPriority_def split: if_splits)

lemma tie_sorted: "sortRules [tieRuleA, tieRuleB, tieRuleC] = [tieRuleC, tieRuleB, tieRuleA]"
  by (simp add: sortRules_def sortOuter.simps sortInner.simps tieRuleA_def tieRuleB_def tieRuleC_def)

lemma tie_index: "buildRuleMap [tieRuleA, tieRuleB, tieRuleC] = [(''x'', [tieRuleC, tieRuleB, tieRuleA])]"
proof -
  have "collectRules [tieRuleA, tieRuleB, tieRuleC] [] = [(''x'', [tieRuleA, tieRuleB, tieRuleC])]"
    by (simp add: tieRuleA_def tieRuleB_def tieRuleC_def TrimSpace_def isSpace_def)
  then show ?thesis by (simp add: buildRuleMap_def tie_sorted)
qed

text \<open>
  Claim C1, as the code has it. Whenever the rule list holds an exact candidate for the
  observation, \<open>MatchWindow\<close> returns an exact candidate whose priority value is lowest
  among all exact candidates, whatever the order in which the index's keys are visited.
  Which of several candidates of that priority is returned is decided by the exchange
  loops of \<open>buildRuleMap\<close>, not by the position in the original list.
\<close>

theorem exact_phase_lowest_priority:
  assumes "exactCandidate rules w r0"
  shows "\<exists>r. MatchWindow keys (buildRuleMap rules) (Some w) = Some r \<and>
             exactCandidate rules w r \<and>
             (\<forall>r'. exactCandidate rules w r' \<longrightarrow> Priority r \<le> Priority r')"
proof -
  let ?rs = "rulesFor (buildRuleMap rules) (wAppName w)"
  have set_rs: "set ?rs = {r \<in> set rules. Enabled r \<and> wAppName w \<in> set (appTokens r)}"
  proof -
    have "set ?rs = set_mset (mset (sortRules (rulesFor (collectRules rules []) (wAppName w))))"
      by (simp add: rulesFor_buildRuleMap)
    also have "\<dots> = set (rulesFor (collectRules rules []) (wAppName w))"
      by (simp only: mset_sortRules set_mset_mset)
    also have "\<dots> = {r \<in> set rules. Enabled r \<and> wAppName w \<in> set (appTokens r)}"
      by (simp add: set_rulesFor_collectRules rulesFor_Nil)
    finally show ?thesis .
  qed
  have srt: "sorted_wrt byPriority ?rs"
    by (simp add: rulesFor_buildRuleMap sortRules_sorted)
  have "r0 \<in> set ?rs" using assms set_rs by (simp add: exactCandidate_def)
  then have "firstWindowMatch (wWindowName w) ?rs \<noteq> None"
    using assms firstWindowMatch_exists by (simp add: exactCandidate_def)
  then obtain r where r: "firstWindowMatch (wWindowName w) ?rs = Some r" by blast
  have m: "MatchWindow keys (buildRuleMap rules) (Some w) = Some r"
    using r by (simp add: MatchWindow_def exactPhase_rulesFor)
  from firstWindowMatch_sorted[OF srt r] set_rs
  have "exactCandidate rules w r \<and>
        (\<forall>r'. exactCandidate rules w r' \<longrightarrow> Priority r \<le> Priority r')"
    by (auto simp: exactCandidate_def)
  with m show ?thesis by blast
qed

text \<open>
  The witness of the theorem of C1: the rule list \<open>[tieRuleA, tieRuleB, tieRuleC]\<close> and the
  observation \<open>tieWindow\<close>.
\<close>

theorem exact_phase_lowest_priority_witness:
  "exactCandidate [tieRuleA, tieRuleB, tieRuleC] tieWindow tieRuleA \<and>
   (\<exists>r. MatchWindow [''x''] (buildRuleMap [tieRuleA, tieRuleB, tieRuleC]) (Some tieWindow) = Some r \<and>
        exactCandidate [tieRuleA, tieRuleB, tieRuleC] tieWindow r \<and>
        (\<forall>r'. exactCandidate [tieRuleA, tieRuleB, tieRuleC] tieWindow r' \<longrightarrow> Priority r \<le> Priority r'))"
proof -
  have h: "exactCandidate [tieRuleA, tieRuleB, tieRuleC] tieWindow tieRuleA"
    by (simp add: exactCandidate_def appTokens_def tieRuleA_def tieWindow_def
        windowNameMatches_def TrimSpace_def isSpace_def)
  from h exact_phase_lowest_priority[OF h, of "[''x'']"] show ?thesis by simp
qed

text \<open>
  Claim C1 as the specification states it fails on ties. The rules \<open>tieRuleA\<close> and
  \<open>tieRuleB\<close> share priority 2 and match every window; \<open>tieRuleC\<close> has priority 1 and
  a window pattern that the observation does not match. The first outer pass exchanges
  positions 0 and 2, which moves \<open>tieRuleA\<close> behind \<open>tieRuleB\<close>, and \<open>MatchWindow\<close>
  returns \<open>tieRuleB\<close>, the later rule of the original list.
\<close>

theorem exact_tie_counterexample:
  "specExactChoice [tieRuleA, tieRuleB, tieRuleC] tieWindow = Some tieRuleA \<and>
   buildRuleMap [tieRuleA, tieRuleB, tieRuleC] = [(''x'', [tieRuleC, tieRuleB, tieRuleA])] \<and>
   MatchWindow [''x''] (buildRuleMap [tieRuleA, tieRuleB, tieRuleC]) (Some tieWindow) = Some tieRuleB \<and>
   Priority tieRuleA = Priority tieRuleB \<and>
   tieRuleA \<noteq> tieRuleB"
proof -
  have nm: "\<not> windowNameMatches '''' ''zzz''"
    by (simp add: windowNameMatches_def ToLower_def TrimSpace_def isSpace_def lowerByte_def ReplaceAll_def)
  have em: "\<And>wn. windowNameMatches wn []"
    by (simp add: windowNameMatches_def)
  have "specCandidates [tieRuleA, tieRuleB, tieRuleC] tieWindow = [tieRuleA, tieRuleB]"
    using nm em by (simp add: specCandidates_def tieRuleA_def tieRuleB_def tieRuleC_def tieWindow_def)
  then have 1: "specExactChoice [tieRuleA, tieRuleB, tieRuleC] tieWindow = Some tieRuleA"
    by (simp add: specExactChoice_def tieRuleA_def tieRuleB_def)
  have fw: "firstWindowMatch '''' [tieRuleC, tieRuleB, tieRuleA] = Some tieRuleB"
    using nm em by (simp add: tieRuleB_def tieRuleC_def)
  have 2: "MatchWindow [''x''] (buildRuleMap [tieRuleA, tieRuleB, tieRuleC]) (Some tieWindow) = Some tieRuleB"
    by (simp add: tie_index MatchWindow_def exactPhase_def tieWindow_def fw del: firstWindowMatch.simps)
  have 3: "tieRuleA \<noteq> tieRuleB" by (simp add: tieRuleA_def tieRuleB_def)
  have 4: "Priority tieRuleA = Priority tieRuleB" by (simp add: tieRuleA_def tieRuleB_def)
  show ?thesis by (intro conjI 1 tie_index 2 4 3)
qed

section \<open>When the result of a match depends on the order of the keys\<close>

text \<open>
  A key is a fuzzy hit for an observation when the fuzzy loop returns from it: the key
  matches the observed application name and one of its rules matches the window.
\<close>

definition fuzzyHit :: "ruleMap \<Rightarrow> WindowInfo \<Rightarrow> string \<Rightarrow> bool" where
  "fuzzyHit m w k =
     (appNameMatches (wAppName w) k \<and>
      firstWindowMatch (wWindowName w) (rulesFor m k) \<noteq> None)"

definition fuzzyRuleChrome :: Rule where
  "fuzzyRuleChrome = \<lparr>AppName = ''chrome'', WindowName = '''', Input = ''P'', Enabled = True, Priority = 1\<rparr>"

definition fuzzyRuleGoogle :: Rule where
  "fuzzyRuleGoogle = \<lparr>AppName = ''google'', WindowName = '''', Input = ''Q'', Enabled = True, Priority = 1\<rparr>"

definition fuzzyWindow :: WindowInfo where
  "fuzzyWindow = \<lparr>wAppName = ''Google Chrome'', wAppPath = '''', wWindowName = '''', wPID = 7\<rparr>"

definition detRule :: Rule where
  "detRule = \<lparr>AppName = ''com.apple.Safari'', WindowName = '''', Input = ''pinyin'', Enabled = True, Priority = 1\<rparr>"

definition detRuleLoose :: Rule where
  "detRuleLoose = \<lparr>AppName = ''safari'', WindowName = '''', Input = ''abc'', Enabled = True, Priority = 1\<rparr>"

definition detWindow :: WindowInfo where
  "detWindow = \<lparr>wAppName = ''com.apple.Safari'', wAppPath = '''', wWindowName = ''Start Page'', wPID = 42\<rparr>"

lemma fuzzyPhase_no_hit:
  "\<forall>k \<in> set keys. \<not> fuzzyHit m w k \<Longrightarrow> fuzzyPhase keys m w = None"
  by (induction keys) (auto simp: fuzzyHit_def split: option.splits)

lemma fuzzyPhase_only_hit:
  "k \<in> set keys \<Longrightarrow> fuzzyHit m w k \<Longrightarrow>
   \<forall>k' \<in> set keys. fuzzyHit m w k' \<longrightarrow> k' = k \<Longrightarrow>
   fuzzyPhase keys m w = firstWindowMatch (wWindowName w) (rulesFor m k)"
proof (induction keys)
  case Nil
  then show ?case by simp
next
  case (Cons a keys)
  show ?case
  proof (cases "fuzzyHit m w a")
    case True
    then have "a = k" using Cons.prems(3) by simp
    then show ?thesis using True by (auto simp: fuzzyHit_def split: option.splits)
  next
    case False
    then have kk: "k \<in> set keys" using Cons.prems(1,2) by auto
    have u: "\<forall>k' \<in> set keys. fuzzyHit m w k' \<longrightarrow> k' = k"
      using Cons.prems(3) by (meson list.set_intros(2))
    have "fuzzyPhase keys m w = firstWindowMatch (wWindowName w) (rulesFor m k)"
      by (rule Cons.IH[OF kk Cons.prems(2) u])
    then show ?thesis using False by (auto simp: fuzzyHit_def split: option.splits)
  qed
qed

lemma fuzzyPhase_unambiguous:
  assumes "set keys1 = set keys2"
    and "\<forall>k \<in> set keys1. \<forall>k' \<in> set keys1. fuzzyHit m w k \<and> fuzzyHit m w k' \<longrightarrow> k = k'"
  shows "fuzzyPhase keys1 m w = fuzzyPhase keys2 m w"
proof (cases "\<exists>k \<in> set keys1. fuzzyHit m w k")
  case True
  then obtain k where k: "k \<in> set keys1" "fuzzyHit m w k" by blast
  have u1: "\<forall>k' \<in> set keys1. fuzzyHit m w k' \<longrightarrow> k' = k" using assms(2) k by blast
  have u2: "\<forall>k' \<in> set keys2. fuzzyHit m w k' \<longrightarrow> k' = k" using u1 assms(1) by simp
  have k2: "k \<in> set keys2" using k(1) assms(1) by simp
  show ?thesis
    using fuzzyPhase_only_hit[OF k(1) k(2) u1] fuzzyPhase_only_hit[OF k2 k(2) u2] by simp
next
  case False
  then have "\<forall>k \<in> set keys1. \<not> fuzzyHit m w k" by blast
  moreover from this have "\<forall>k \<in> set keys2. \<not> fuzzyHit m w k" using assms(1) by simp
  ultimately show ?thesis by (simp add: fuzzyPhase_no_hit)
qed

lemma fuzzy_index:
  "buildRuleMap [fuzzyRuleChrome, fuzzyRuleGoogle] =
     [(''chrome'', [fuzzyRuleChrome]), (''google'', [fuzzyRuleGoogle])]"
proof -
  have "collectRules [fuzzyRuleChrome, fuzzyRuleGoogle] [] =
          [(''chrome'', [fuzzyRuleChrome]), (''google'', [fuzzyRuleGoogle])]"
    by (simp add: fuzzyRuleChrome_def fuzzyRuleGoogle_def TrimSpace_def isSpace_def)
  then show ?thesis
    by (simp add: buildRuleMap_def sortRules_def sortOuter.simps)
qed

lemma fuzzy_names:
  "appNameMatches ''Google Chrome'' ''chrome''" "appNameMatches ''Google Chrome'' ''google''"
  by (simp_all add: appNameMatches_def ToLower_def TrimSpace_def isSpace_def lowerByte_def)

lemma det_index:
  "buildRuleMap [detRule, detRuleLoose] =
     [(''com.apple.Safari'', [detRule]), (''safari'', [detRuleLoose])]"
proof -
  have "collectRules [detRule, detRuleLoose] [] =
          [(''com.apple.Safari'', [detRule]), (''safari'', [detRuleLoose])]"
    by (simp add: detRule_def detRuleLoose_def TrimSpace_def isSpace_def)
  then show ?thesis by (simp add: buildRuleMap_def sortRules_def sortOuter.simps)
qed

text \<open>
  Claim C8, as the code has it. Two calls of \<open>MatchWindow\<close> on the same index and the same
  observation, each visiting the keys of the index in an order of its own, return the same
  result whenever the exact phase resolves the observation, or at most one key of the index
  is a fuzzy hit for it.
\<close>

theorem match_deterministic_when_unambiguous:
  assumes "mset keys1 = mset (map fst m)" and "mset keys2 = mset (map fst m)"
    and "exactPhase m w \<noteq> None \<or>
         (\<forall>k \<in> set keys1. \<forall>k' \<in> set keys1. fuzzyHit m w k \<and> fuzzyHit m w k' \<longrightarrow> k = k')"
  shows "MatchWindow keys1 m (Some w) = MatchWindow keys2 m (Some w)"
proof (cases "exactPhase m w")
  case (Some r)
  then show ?thesis by (simp add: MatchWindow_def)
next
  case None
  have "set keys1 = set keys2"
    using assms(1,2) by (metis set_mset_mset)
  then have "fuzzyPhase keys1 m w = fuzzyPhase keys2 m w"
    using assms(3) None fuzzyPhase_unambiguous by blast
  then show ?thesis using None by (simp add: MatchWindow_def)
qed

text \<open>
  The witness of the theorem of C8: an index with the keys \<open>com.apple.Safari\<close> and
  \<open>safari\<close>, both of which match the observed name in the fuzzy sense; the exact phase
  resolves the observation, and the two visiting orders agree.
\<close>

theorem match_deterministic_when_unambiguous_witness:
  "mset [''com.apple.Safari'', ''safari''] = mset (map fst (buildRuleMap [detRule, detRuleLoose])) \<and>
   mset [''safari'', ''com.apple.Safari''] = mset (map fst (buildRuleMap [detRule, detRuleLoose])) \<and>
   exactPhase (buildRuleMap [detRule, detRuleLoose]) detWindow \<noteq> None \<and>
   MatchWindow [''com.apple.Safari'', ''safari''] (buildRuleMap [detRule, detRuleLoose]) (Some detWindow) =
   MatchWindow [''safari'', ''com.apple.Safari''] (buildRuleMap [detRule, detRuleLoose]) (Some detWindow)"
proof -
  have k1: "mset [''com.apple.Safari'', ''safari''] = mset (map fst (buildRuleMap [detRule, detRuleLoose]))"
    by (simp add: det_index)
  have k2: "mset [''safari'', ''com.apple.Safari''] = mset (map fst (buildRuleMap [detRule, detRuleLoose]))"
    by (simp add: det_index)
  have wn: "WindowName detRule = []"
    by (simp add: detRule_def)
  have e: "exactPhase (buildRuleMap [detRule, detRuleLoose]) detWindow \<noteq> None"
    by (simp add: det_index exactPhase_def detWindow_def wn windowNameMatches_def)
  have r: "MatchWindow [''com.apple.Safari'', ''safari''] (buildRuleMap [detRule, detRuleLoose]) (Some detWindow) =
           MatchWindow [''safari'', ''com.apple.Safari''] (buildRuleMap [detRule, detRuleLoose]) (Some detWindow)"
    by (rule match_deterministic_when_unambiguous[OF k1 k2 disjI1[OF e]])
  from k1 k2 e r show ?thesis by (intro conjI)
qed

text \<open>
  Claim C8 as the specification states it fails in the fuzzy phase. The index has the keys
  \<open>chrome\<close> and \<open>google\<close>; the observed name \<open>Google Chrome\<close> is no key, and both
  keys are contained in it. Visiting \<open>chrome\<close> first returns one rule, visiting
  \<open>google\<close> first returns the other: same index, same observation, two results.
\<close>

theorem fuzzy_order_counterexample:
  "mset [''chrome'', ''google''] = mset (map fst (buildRuleMap [fuzzyRuleChrome, fuzzyRuleGoogle])) \<and>
   mset [''google'', ''chrome''] = mset (map fst (buildRuleMap [fuzzyRuleChrome, fuzzyRuleGoogle])) \<and>
   MatchWindow [''chrome'', ''google''] (buildRuleMap [fuzzyRuleChrome, fuzzyRuleGoogle])
     (Some fuzzyWindow) = Some fuzzyRuleChrome \<and>
   MatchWindow [''google'', ''chrome''] (buildRuleMap [fuzzyRuleChrome, fuzzyRuleGoogle])
     (Some fuzzyWindow) = Some fuzzyRuleGoogle \<and>
   fuzzyRuleChrome \<noteq> fuzzyRuleGoogle"
proof -
  have em: "\<And>wn. windowNameMatches wn []"
    by (simp add: windowNameMatches_def)
  have wc: "WindowName fuzzyRuleChrome = []" and wg: "WindowName fuzzyRuleGoogle = []"
    by (simp_all add: fuzzyRuleChrome_def fuzzyRuleGoogle_def)
  have 1: "mset [''chrome'', ''google''] = mset (map fst (buildRuleMap [fuzzyRuleChrome, fuzzyRuleGoogle]))"
    by (simp add: fuzzy_index)
  have 2: "mset [''google'', ''chrome''] = mset (map fst (buildRuleMap [fuzzyRuleChrome, fuzzyRuleGoogle]))"
    by (simp add: fuzzy_index)
  have 3: "MatchWindow [''chrome'', ''google''] (buildRuleMap [fuzzyRuleChrome, fuzzyRuleGoogle])
             (Some fuzzyWindow) = Some fuzzyRuleChrome"
    by (simp add: fuzzy_index MatchWindow_def exactPhase_def fuzzyWindow_def rulesFor_def
        fuzzy_names em wc wg)
  have 4: "MatchWindow [''google'', ''chrome''] (buildRuleMap [fuzzyRuleChrome, fuzzyRuleGoogle])
             (Some fuzzyWindow) = Some fuzzyRuleGoogle"
    by (simp add: fuzzy_index MatchWindow_def exactPhase_def fuzzyWindow_def rulesFor_def
        fuzzy_names em wc wg)
  have 5: "fuzzyRuleChrome \<noteq> fuzzyRuleGoogle"
    by (simp add: fuzzyRuleChrome_def fuzzyRuleGoogle_def)
  from 1 2 3 4 5 show ?thesis by blast
qed

section \<open>The window monitor\<close>

text \<open>
  \<open>WindowService\<close>. The callback \<open>onWindowChange\<close> is a function value of the
  program; the model keeps whether one is registered (\<open>False\<close> is the nil callback) and
  records each invocation by the observation it is called with. The channel \<open>stopChan\<close>
  is the event \<open>Stop\<close> of the loop.
\<close>

record WindowService =
  lastWindow :: "WindowInfo option"
  checkInterval :: int
  onWindowChange :: bool

text \<open>
  The body of \<open>case <-ticker.C\<close> in \<open>StartMonitoring\<close>. The argument \<open>q\<close> is what
  \<open>GetActiveWindow\<close> returned on this tick: \<open>Inl\<close> an error, \<open>Inr\<close> the observation.
  The result is the service after the tick and the observations the callback was invoked
  with during the tick.
\<close>

definition monitorTick ::
  "string + WindowInfo \<Rightarrow> WindowService \<Rightarrow> WindowService \<times> WindowInfo list" where
  "monitorTick q ws =
     (case q of
        Inl err \<Rightarrow> (ws, [])
      | Inr window \<Rightarrow>
          (if lastWindow ws = None \<or> wAppName (the (lastWindow ws)) \<noteq> wAppName window
           then (ws\<lparr>lastWindow := Some window\<rparr>,
                 if onWindowChange ws then [window] else [])
           else (ws, [])))"

datatype monitorEvent = Tick "string + WindowInfo" | Stop

text \<open>
  \<open>StartMonitoring\<close> on a finite sequence of the events its \<open>select\<close> receives: the
  loop returns at the first \<open>Stop\<close>; the invocations of the callback are collected in order.
\<close>

fun StartMonitoring ::
  "monitorEvent list \<Rightarrow> WindowService \<Rightarrow> WindowService \<times> WindowInfo list" where
  "StartMonitoring [] ws = (ws, [])"
| "StartMonitoring (Stop # evs) ws = (ws, [])"
| "StartMonitoring (Tick q # evs) ws =
     (case monitorTick q ws of
        (ws', calls) \<Rightarrow>
          (case StartMonitoring evs ws' of
             (ws'', calls') \<Rightarrow> (ws'', calls @ calls')))"

definition appChanged :: "WindowService \<Rightarrow> WindowInfo \<Rightarrow> bool" where
  "appChanged ws window =
     (case lastWindow ws of
        None \<Rightarrow> True
      | Some l \<Rightarrow> wAppName l \<noteq> wAppName window)"

definition seenSafari :: WindowService where
  "seenSafari =
     \<lparr>lastWindow = Some \<lparr>wAppName = ''Safari'', wAppPath = '''', wWindowName = ''Start Page'', wPID = 10\<rparr>,
      checkInterval = 500, onWindowChange = True\<rparr>"

definition safariOtherTitle :: WindowInfo where
  "safariOtherTitle = \<lparr>wAppName = ''Safari'', wAppPath = '''', wWindowName = ''News'', wPID = 11\<rparr>"

definition terminalWindow :: WindowInfo where
  "terminalWindow = \<lparr>wAppName = ''Terminal'', wAppPath = '''', wWindowName = ''zsh'', wPID = 12\<rparr>"

text \<open>
  Claim C7. On a tick whose query succeeds, a registered callback is invoked (once, with
  the new observation) exactly when there is no last observation or its application name
  differs from the new one, and the new observation then becomes the last one; with no
  callback registered nothing is invoked. A new
  observation with the application name of the last one, whatever its window title and
  process id, invokes nothing and leaves the service as it was. A failed query invokes
  nothing and leaves the service as it was.
\<close>

theorem monitorTick_callback_iff_app_changed:
  "(onWindowChange ws \<longrightarrow>
      (snd (monitorTick (Inr window) ws) = [window] \<longleftrightarrow> appChanged ws window) \<and>
      (snd (monitorTick (Inr window) ws) = [] \<longleftrightarrow> \<not> appChanged ws window)) \<and>
   (\<not> onWindowChange ws \<longrightarrow> snd (monitorTick (Inr window) ws) = []) \<and>
   (appChanged ws window \<longrightarrow>
      fst (monitorTick (Inr window) ws) = ws\<lparr>lastWindow := Some window\<rparr>) \<and>
   (lastWindow ws = Some l \<and> wAppName l = wAppName window \<longrightarrow>
      monitorTick (Inr window) ws = (ws, [])) \<and>
   monitorTick (Inl err) ws = (ws, [])"
  by (auto simp: monitorTick_def appChanged_def split: option.splits)

text \<open>
  The witness of the theorem of C7: the last observation is Safari; the new one is Safari
  under another title and another process id, or Terminal, or the query fails.
\<close>

theorem monitorTick_callback_iff_app_changed_witness:
  "onWindowChange seenSafari \<and>
   lastWindow seenSafari =
     Some \<lparr>wAppName = ''Safari'', wAppPath = '''', wWindowName = ''Start Page'', wPID = 10\<rparr> \<and>
   wAppName \<lparr>wAppName = ''Safari'', wAppPath = '''', wWindowName = ''Start Page'', wPID = 10\<rparr> =
     wAppName safariOtherTitle \<and>
   \<not> appChanged seenSafari safariOtherTitle \<and>
   monitorTick (Inr safariOtherTitle) seenSafari = (seenSafari, []) \<and>
   appChanged seenSafari terminalWindow \<and>
   monitorTick (Inr terminalWindow) seenSafari =
     (seenSafari\<lparr>lastWindow := Some terminalWindow\<rparr>, [terminalWindow]) \<and>
   monitorTick (Inl ''no active window found'') seenSafari = (seenSafari, [])"
proof -
  let ?last = "\<lparr>wAppName = ''Safari'', wAppPath = '''', wWindowName = ''Start Page'', wPID = 10\<rparr>"
  have h1: "onWindowChange seenSafari"
    by (simp add: seenSafari_def)
  have h2: "lastWindow seenSafari = Some ?last"
    by (simp add: seenSafari_def)
  have h3: "wAppName ?last = wAppName safariOtherTitle"
    by (simp add: safariOtherTitle_def)
  have h4: "\<not> appChanged seenSafari safariOtherTitle"
    by (simp add: appChanged_def seenSafari_def safariOtherTitle_def)
  have h5: "appChanged seenSafari terminalWindow"
    by (simp add: appChanged_def seenSafari_def terminalWindow_def)
  note same = monitorTick_callback_iff_app_changed
      [of seenSafari safariOtherTitle ?last "''no active window found''"]
  note other = monitorTick_callback_iff_app_changed
      [of seenSafari terminalWindow ?last "''no active window found''"]
  have r1: "monitorTick (Inr safariOtherTitle) seenSafari = (seenSafari, [])"
    using same h2 h3 by blast
  have r2: "snd (monitorTick (Inr terminalWindow) seenSafari) = [terminalWindow]"
    using other h1 h5 by blast
  have r3: "fst (monitorTick (Inr terminalWindow) seenSafari) =
              seenSafari\<lparr>lastWindow := Some terminalWindow\<rparr>"
    using other h5 by blast
  have r4: "monitorTick (Inr terminalWindow) seenSafari =
              (seenSafari\<lparr>lastWindow := Some terminalWindow\<rparr>, [terminalWindow])"
    using r2 r3 by (simp add: prod_eq_iff)
  have r5: "monitorTick (Inl ''no active window found'') seenSafari = (seenSafari, [])"
    using same by blast
  show ?thesis by (intro conjI h1 h2 h3 h4 r1 h5 r4 r5)
qed

section \<open>The action log\<close>

text \<open>
  The files of the log directory. \<open>Live\<close> is \<open>logPath\<close>; \<open>Gen i\<close> is the path
  \<open>fmt.Sprintf("%s.%d%s", baseNameWithoutExt, i, ext)\<close>, which differs from \<open>logPath\<close>
  and from the path of every other number. A file is its bytes; an absent file is
  \<open>None\<close>. The system calls are those of a file system that refuses nothing:
  \<open>os.Remove\<close> and \<open>os.Rename\<close> fail only when the file they act on is absent (the
  program ignores their errors), and \<open>os.Rename\<close> replaces an existing target.
\<close>

datatype logFileName = Live | Gen int

type_synonym logFiles = "logFileName \<Rightarrow> string option"

definition osRemove :: "logFileName \<Rightarrow> logFiles \<Rightarrow> logFiles" where
  "osRemove p fs = fs(p := None)"

definition osRename :: "logFileName \<Rightarrow> logFileName \<Rightarrow> logFiles \<Rightarrow> logFiles" where
  "osRename src dst fs =
     (case fs src of
        None \<Rightarrow> fs
      | Some bytes \<Rightarrow> (fs(src := None))(dst := Some bytes))"

text \<open>\<open>os.OpenFile(path, O_CREATE|O_WRONLY|O_APPEND, 0644)\<close>: creates the file when absent.\<close>

definition osOpenAppend :: "logFileName \<Rightarrow> logFiles \<Rightarrow> logFiles" where
  "osOpenAppend p fs = (case fs p of None \<Rightarrow> fs(p := Some []) | Some bytes \<Rightarrow> fs)"

definition osAppend :: "logFileName \<Rightarrow> string \<Rightarrow> logFiles \<Rightarrow> logFiles" where
  "osAppend p bytes fs = fs(p := Some ((case fs p of None \<Rightarrow> [] | Some old \<Rightarrow> old) @ bytes))"

record LogEntry =
  eTimestamp :: int
  eLevel :: string
  eMessage :: string
  eAppName :: string
  eInput :: string
  eAction :: string
  eError :: string

text \<open>
  \<open>LoggerService\<close>. \<open>logFile\<close> tells whether the handle is non-nil (it is then open
  on \<open>logPath\<close>); \<open>bufferMutex\<close> tells whether the mutex is held. The calls of one
  goroutine are modelled: a \<open>Lock()\<close> on the mutex this goroutine already holds never
  returns (Go's mutexes are not reentrant), and a call that never returns has the result
  \<open>None\<close>. \<open>files\<close> is the log directory the service acts on.
\<close>

record LoggerService =
  logFile :: bool
  maxLogSize :: int
  maxLogFiles :: int
  bufferSize :: int
  logBuffer :: "LogEntry list"
  bufferMutex :: bool
  enableLogging :: bool
  files :: logFiles

definition NewLoggerService :: "logFiles \<Rightarrow> LoggerService" where
  "NewLoggerService fs =
     \<lparr>logFile = False, maxLogSize = 10 * 1024 * 1024, maxLogFiles = 5, bufferSize = 100,
      logBuffer = [], bufferMutex = False, enableLogging = True, files = fs\<rparr>"

definition Start :: "LoggerService \<Rightarrow> LoggerService" where
  "Start ls = ls\<lparr>logFile := True, files := osOpenAppend Live (files ls)\<rparr>"

definition LogLevelDebug :: int where "LogLevelDebug = 0"

definition LogLevelInfo :: int where "LogLevelInfo = 1"

definition LogLevelWarn :: int where "LogLevelWarn = 2"

definition LogLevelError :: int where "LogLevelError = 3"

definition levelToString :: "int \<Rightarrow> string" where
  "levelToString level =
     (if level = LogLevelDebug then ''debug''
      else if level = LogLevelInfo then ''info''
      else if level = LogLevelWarn then ''warn''
      else if level = LogLevelError then ''error''
      else ''unknown'')"

text \<open>
  The loop of \<open>rotateLogIfNeeded\<close>, \<open>for i := ls.maxLogFiles - 1; i >= 1; i--\<close>, with
  \<open>n\<close> for \<open>ls.maxLogFiles\<close>.
\<close>

function shiftLogs :: "int \<Rightarrow> int \<Rightarrow> logFiles \<Rightarrow> logFiles" where
  "shiftLogs n i fs =
     (if i \<ge> 1
      then shiftLogs n (i - 1)
             (if i = n - 1 then osRemove (Gen i) fs
              else osRename (Gen i) (Gen (i + 1)) fs)
      else fs)"
  by pat_completeness auto
termination
  by (relation "measure (\<lambda>(n, i, fs). nat i)") auto

declare shiftLogs.simps [simp del]

definition fileSize :: "logFiles \<Rightarrow> logFileName \<Rightarrow> int" where
  "fileSize fs p = (case fs p of None \<Rightarrow> 0 | Some bytes \<Rightarrow> int (length bytes))"

text \<open>
  \<open>rotateLogIfNeeded\<close>. \<open>openOk\<close> tells whether the \<open>os.OpenFile\<close> that creates the
  new live file succeeds. The result is the error returned (\<open>None\<close> is nil) and the
  service after the call.
\<close>

definition rotateLogIfNeeded :: "bool \<Rightarrow> LoggerService \<Rightarrow> string option \<times> LoggerService" where
  "rotateLogIfNeeded openOk ls =
     (if \<not> logFile ls then (None, ls)
      else if fileSize (files ls) Live < maxLogSize ls then (None, ls)
      else
        let fs1 = osRemove (Gen (maxLogFiles ls)) (files ls);
            fs2 = shiftLogs (maxLogFiles ls) (maxLogFiles ls - 1) fs1;
            fs3 = osRename Live (Gen 1) fs2
        in if openOk
           then (None, ls\<lparr>logFile := True, files := osOpenAppend Live fs3\<rparr>)
           else (Some ''failed to create new log file'', ls\<lparr>logFile := False, files := fs3\<rparr>))"

text \<open>
  The loop of \<open>flush\<close> over the buffer. \<open>marshal\<close> is \<open>json.Marshal\<close> on an entry
  (\<open>None\<close> when it fails; the entry is then skipped).
\<close>

fun writeEntries :: "(LogEntry \<Rightarrow> string option) \<Rightarrow> LogEntry list \<Rightarrow> LoggerService \<Rightarrow> LoggerService" where
  "writeEntries marshal [] ls = ls"
| "writeEntries marshal (entry # entries) ls =
     writeEntries marshal entries
       (case marshal entry of
          None \<Rightarrow> ls
        | Some jsonData \<Rightarrow>
            if logFile ls then ls\<lparr>files := osAppend Live (jsonData @ [CHR 0x0A]) (files ls)\<rparr>
            else ls)"

text \<open>
  \<open>flush\<close>. The first statement is \<open>ls.bufferMutex.Lock()\<close>; the deferred
  \<open>Unlock\<close> runs on every return.
\<close>

definition flush ::
  "(LogEntry \<Rightarrow> string option) \<Rightarrow> bool \<Rightarrow> LoggerService \<Rightarrow> LoggerService option" where
  "flush marshal openOk ls =
     (if bufferMutex ls then None
      else
        let ls1 = ls\<lparr>bufferMutex := True\<rparr>
        in if logBuffer ls1 = [] then Some (ls1\<lparr>bufferMutex := False\<rparr>)
           else (case rotateLogIfNeeded openOk ls1 of
                   (Some err, ls2) \<Rightarrow> Some (ls2\<lparr>bufferMutex := False\<rparr>)
                 | (None, ls2) \<Rightarrow>
                     Some ((writeEntries marshal (logBuffer ls2) ls2)
                             \<lparr>logBuffer := [], bufferMutex := False\<rparr>)))"

text \<open>
  \<open>log\<close>, the internal recording method. \<open>now\<close> is \<open>time.Now()\<close>. The mutex is
  taken, the entry appended, and when the buffer has reached \<open>bufferSize\<close> the method
  calls \<open>flush\<close> while it still holds the mutex; the \<open>Unlock\<close> comes after.
\<close>

definition log ::
  "(LogEntry \<Rightarrow> string option) \<Rightarrow> bool \<Rightarrow> int \<Rightarrow> int \<Rightarrow> string \<Rightarrow> string \<Rightarrow> string \<Rightarrow> string \<Rightarrow> string \<Rightarrow>
   LoggerService \<Rightarrow> LoggerService option" where
  "log marshal openOk now level message appName input action errorMsg ls =
     (let entry = \<lparr>eTimestamp = now, eLevel = levelToString level, eMessage = message,
                   eAppName = appName, eInput = input, eAction = action, eError = errorMsg\<rparr>
      in if bufferMutex ls then None
         else
           let ls1 = ls\<lparr>bufferMutex := True, logBuffer := logBuffer ls @ [entry]\<rparr>
           in if int (length (logBuffer ls1)) \<ge> bufferSize ls1
              then (case flush marshal openOk ls1 of
                      None \<Rightarrow> None
                    | Some ls2 \<Rightarrow> Some (ls2\<lparr>bufferMutex := False\<rparr>))
              else Some (ls1\<lparr>bufferMutex := False\<rparr>))"

definition LogInfo ::
  "(LogEntry \<Rightarrow> string option) \<Rightarrow> bool \<Rightarrow> int \<Rightarrow> string \<Rightarrow> LoggerService \<Rightarrow> LoggerService option" where
  "LogInfo marshal openOk now message ls =
     (if \<not> enableLogging ls then Some ls
      else log marshal openOk now LogLevelInfo message [] [] [] [] ls)"

text \<open>\<open>n\<close> calls of \<open>LogInfo\<close> in a row, none of them interleaved with a timer flush.\<close>

fun LogInfoTimes ::
  "(LogEntry \<Rightarrow> string option) \<Rightarrow> bool \<Rightarrow> int \<Rightarrow> string \<Rightarrow> nat \<Rightarrow> LoggerService \<Rightarrow> LoggerService option" where
  "LogInfoTimes marshal openOk now message 0 ls = Some ls"
| "LogInfoTimes marshal openOk now message (Suc n) ls =
     (case LogInfo marshal openOk now message ls of
        None \<Rightarrow> None
      | Some ls' \<Rightarrow> LogInfoTimes marshal openOk now message n ls')"

text \<open>
  The entry that \<open>LogInfo\<close> builds, and a stand-in for \<open>json.Marshal\<close> that never
  fails, for the concrete runs below.
\<close>

definition infoEntry :: "int \<Rightarrow> string \<Rightarrow> LogEntry" where
  "infoEntry now message =
     \<lparr>eTimestamp = now, eLevel = ''info'', eMessage = message,
      eAppName = [], eInput = [], eAction = [], eError = []\<rparr>"

definition messageOnly :: "LogEntry \<Rightarrow> string option" where
  "messageOnly entry = Some (eMessage entry)"

subsection \<open>Recording into a buffer that reaches its capacity\<close>

lemma LogInfo_below_capacity:
  assumes "enableLogging ls" and "\<not> bufferMutex ls"
    and "int (length (logBuffer ls)) + 1 < bufferSize ls"
  shows "LogInfo marshal openOk now message ls =
           Some (ls\<lparr>logBuffer := logBuffer ls @ [infoEntry now message]\<rparr>)"
  using assms
  by (simp add: LogInfo_def log_def infoEntry_def levelToString_def LogLevelInfo_def
      LogLevelDebug_def)

lemma LogInfo_at_capacity:
  assumes "enableLogging ls" and "\<not> bufferMutex ls"
    and "int (length (logBuffer ls)) + 1 \<ge> bufferSize ls"
  shows "LogInfo marshal openOk now message ls = None"
  using assms by (simp add: LogInfo_def log_def flush_def)

lemma LogInfoTimes_below_capacity:
  "enableLogging ls \<Longrightarrow> \<not> bufferMutex ls \<Longrightarrow>
   int (length (logBuffer ls)) + int n < bufferSize ls \<Longrightarrow>
   LogInfoTimes marshal openOk now message n ls =
     Some (ls\<lparr>logBuffer := logBuffer ls @ replicate n (infoEntry now message)\<rparr>)"
proof (induction n arbitrary: ls)
  case 0
  then show ?case by simp
next
  case (Suc n)
  let ?ls' = "ls\<lparr>logBuffer := logBuffer ls @ [infoEntry now message]\<rparr>"
  have step: "LogInfo marshal openOk now message ls = Some ?ls'"
    using Suc.prems by (intro LogInfo_below_capacity) simp_all
  have "LogInfoTimes marshal openOk now message n ?ls' =
          Some (?ls'\<lparr>logBuffer := logBuffer ?ls' @ replicate n (infoEntry now message)\<rparr>)"
    using Suc.prems by (intro Suc.IH) simp_all
  then show ?case using step by (simp add: replicate_app_Cons_same)
qed

lemma logBuffer_writeEntries:
  "logBuffer (writeEntries marshal entries ls) = logBuffer ls"
  by (induction entries arbitrary: ls) (auto split: option.splits)

lemma bufferMutex_writeEntries:
  "bufferMutex (writeEntries marshal entries ls) = bufferMutex ls"
  by (induction entries arbitrary: ls) (auto split: option.splits)

lemma flush_from_timer_drains:
  assumes "\<not> bufferMutex ls"
  shows "\<exists>ls'. flush marshal True ls = Some ls' \<and> logBuffer ls' = [] \<and> \<not> bufferMutex ls'"
  using assms
  by (auto simp: flush_def rotateLogIfNeeded_def Let_def split: option.splits prod.splits if_splits)

text \<open>
  Claim C3 asks that the call of the recording method which brings the buffer to its
  capacity flushes once and returns with the buffer drained. The code does not: \<open>log\<close>
  calls \<open>flush\<close> while holding \<open>bufferMutex\<close>, and \<open>flush\<close> begins by locking the
  same mutex. On a service made by \<open>NewLoggerService\<close> and started, 99 calls of
  \<open>LogInfo\<close> return and leave 99 entries in the buffer; the 100th call, which brings the
  buffer to \<open>bufferSize\<close>, never returns.
\<close>

theorem record_at_capacity_never_returns:
  "LogInfoTimes messageOnly True 0 ''switch'' 99 (Start (NewLoggerService (\<lambda>p. None))) =
     Some ((Start (NewLoggerService (\<lambda>p. None)))\<lparr>logBuffer := replicate 99 (infoEntry 0 ''switch'')\<rparr>) \<and>
   int (length (replicate 99 (infoEntry 0 ''switch''))) + 1 = bufferSize (Start (NewLoggerService (\<lambda>p. None))) \<and>
   LogInfo messageOnly True 0 ''switch''
     ((Start (NewLoggerService (\<lambda>p. None)))\<lparr>logBuffer := replicate 99 (infoEntry 0 ''switch'')\<rparr>) = None"
proof -
  let ?s = "Start (NewLoggerService (\<lambda>p. None))"
  have e: "enableLogging ?s" and m: "\<not> bufferMutex ?s" and b: "logBuffer ?s = []"
    and c: "bufferSize ?s = 100"
    by (simp_all add: Start_def NewLoggerService_def)
  have 1: "LogInfoTimes messageOnly True 0 ''switch'' 99 ?s =
             Some (?s\<lparr>logBuffer := replicate 99 (infoEntry 0 ''switch'')\<rparr>)"
    using LogInfoTimes_below_capacity[of ?s 99 messageOnly True 0 "''switch''"] e m b c by simp
  have 2: "int (length (replicate 99 (infoEntry 0 ''switch''))) + 1 = bufferSize ?s"
    using c by simp
  have 3: "LogInfo messageOnly True 0 ''switch''
             (?s\<lparr>logBuffer := replicate 99 (infoEntry 0 ''switch'')\<rparr>) = None"
    using e m c by (intro LogInfo_at_capacity) simp_all
  from 1 2 3 show ?thesis by (intro conjI)
qed

subsection \<open>Rotation\<close>

text \<open>The files after the three renaming steps of a rotation, for \<open>n = maxLogFiles\<close> at least 1.\<close>

definition rotatedFiles :: "int \<Rightarrow> logFiles \<Rightarrow> logFiles" where
  "rotatedFiles n fs =
     (\<lambda>p. case p of
             Live \<Rightarrow> Some []
           | Gen j \<Rightarrow> if j = 1 then fs Live
                      else if 2 \<le> j \<and> j \<le> n - 1 then fs (Gen (j - 1))
                      else if j = n then None
                      else fs (Gen j))"

text \<open>
  The rotation as the specification words it: delete the oldest generation \<open>.N\<close>, shift
  \<open>.k\<close> to \<open>.(k+1)\<close> for \<open>k\<close> from \<open>N - 1\<close> down to 1, rename the live file to
  \<open>.1\<close>, open a fresh empty live file.
\<close>

function specShift :: "int \<Rightarrow> logFiles \<Rightarrow> logFiles" where
  "specShift k fs =
     (if k \<ge> 1 then specShift (k - 1) (osRename (Gen k) (Gen (k + 1)) fs) else fs)"
  by pat_completeness auto
termination
  by (relation "measure (\<lambda>(k, fs). nat k)") auto

declare specShift.simps [simp del]

definition specRotate :: "int \<Rightarrow> logFiles \<Rightarrow> logFiles" where
  "specRotate n fs =
     osOpenAppend Live (osRename Live (Gen 1) (specShift (n - 1) (osRemove (Gen n) fs)))"

definition fullLogFiles :: logFiles where
  "fullLogFiles =
     (\<lambda>p. None)
       (Live := Some (replicate 10485760 (CHR ''x'')),
        Gen 1 := Some ''first'', Gen 2 := Some ''second'',
        Gen 3 := Some ''third'', Gen 4 := Some ''fourth'')"

definition fullLogger :: LoggerService where
  "fullLogger = (Start (NewLoggerService fullLogFiles))\<lparr>logBuffer := [infoEntry 0 ''switch'']\<rparr>"

lemma shiftLogs_done: "i < 1 \<Longrightarrow> shiftLogs n i fs = fs"
  by (subst shiftLogs.simps) simp

lemma shiftLogs_rename:
  "i \<le> n - 2 \<Longrightarrow> fs (Gen (i + 1)) = None \<Longrightarrow>
   shiftLogs n i fs =
     (\<lambda>p. case p of
             Live \<Rightarrow> fs Live
           | Gen j \<Rightarrow> if 2 \<le> j \<and> j \<le> i + 1 then fs (Gen (j - 1))
                      else if j = 1 \<and> 1 \<le> i then None
                      else fs (Gen j))"
proof (induction n i fs rule: shiftLogs.induct)
  case (1 n i fs)
  show ?case
  proof (cases "i \<ge> 1")
    case False
    then show ?thesis
      by (subst shiftLogs.simps) (auto simp: fun_eq_iff split: logFileName.splits)
  next
    case True
    let ?fs' = "osRename (Gen i) (Gen (i + 1)) fs"
    have ne: "i \<noteq> n - 1" using "1.prems"(1) by simp
    have fs': "?fs' = (fs(Gen i := None))(Gen (i + 1) := fs (Gen i))"
      using "1.prems"(2) by (auto simp: osRename_def fun_eq_iff split: option.splits)
    have pre: "?fs' (Gen (i - 1 + 1)) = None"
      by (simp add: fs')
    have eq: "(if i = n - 1 then osRemove (Gen i) fs else ?fs') = ?fs'"
      using ne by simp
    note ih = "1.IH"[OF True, unfolded eq]
    have "shiftLogs n (i - 1) ?fs' =
            (\<lambda>p. case p of
                    Live \<Rightarrow> ?fs' Live
                  | Gen j \<Rightarrow> if 2 \<le> j \<and> j \<le> i - 1 + 1 then ?fs' (Gen (j - 1))
                             else if j = 1 \<and> 1 \<le> i - 1 then None
                             else ?fs' (Gen j))"
      using "1.prems"(1) pre by (intro ih) simp_all
    moreover have "shiftLogs n i fs = shiftLogs n (i - 1) ?fs'"
      using True by (subst shiftLogs.simps) (simp only: eq if_True)
    ultimately have "shiftLogs n i fs =
            (\<lambda>p. case p of
                    Live \<Rightarrow> ?fs' Live
                  | Gen j \<Rightarrow> if 2 \<le> j \<and> j \<le> i - 1 + 1 then ?fs' (Gen (j - 1))
                             else if j = 1 \<and> 1 \<le> i - 1 then None
                             else ?fs' (Gen j))"
      by simp
    then show ?thesis
      unfolding fs' using True by (auto simp: fun_eq_iff split: logFileName.splits)
  qed
qed

lemma rotation_files:
  assumes "1 \<le> n"
  shows "osOpenAppend Live
           (osRename Live (Gen 1) (shiftLogs n (n - 1) (osRemove (Gen n) fs))) =
         rotatedFiles n fs"
proof (cases "n = 1")
  case True
  then show ?thesis
    by (auto simp: shiftLogs_done rotatedFiles_def osOpenAppend_def osRename_def osRemove_def
        fun_eq_iff split: logFileName.splits option.splits)
next
  case False
  then have n2: "2 \<le> n" using assms by simp
  let ?fs1 = "osRemove (Gen n) fs"
  let ?fs1' = "osRemove (Gen (n - 1)) ?fs1"
  have first: "shiftLogs n (n - 1) ?fs1 = shiftLogs n (n - 2) ?fs1'"
    using n2 by (subst shiftLogs.simps) (simp add: algebra_simps)
  have "shiftLogs n (n - 2) ?fs1' =
          (\<lambda>p. case p of
                  Live \<Rightarrow> ?fs1' Live
                | Gen j \<Rightarrow> if 2 \<le> j \<and> j \<le> n - 2 + 1 then ?fs1' (Gen (j - 1))
                           else if j = 1 \<and> 1 \<le> n - 2 then None
                           else ?fs1' (Gen j))"
    by (intro shiftLogs_rename) (simp_all add: osRemove_def)
  then show ?thesis
    unfolding first using n2
    by (auto simp: rotatedFiles_def osOpenAppend_def osRename_def osRemove_def
        fun_eq_iff split: logFileName.splits option.splits)
qed

lemma rotateLogIfNeeded_rotates:
  assumes "logFile ls" and "maxLogSize ls \<le> fileSize (files ls) Live" and "1 \<le> maxLogFiles ls"
  shows "rotateLogIfNeeded True ls =
           (None, ls\<lparr>logFile := True, files := rotatedFiles (maxLogFiles ls) (files ls)\<rparr>)"
  using assms by (simp add: rotateLogIfNeeded_def rotation_files)

lemma files_writeEntries_Gen:
  "files (writeEntries marshal entries ls) (Gen k) = files ls (Gen k)"
  by (induction entries arbitrary: ls) (auto simp: osAppend_def split: option.splits)

lemma flush_rotates_first:
  assumes "\<not> bufferMutex ls" and "logBuffer ls \<noteq> []"
    and "rotateLogIfNeeded openOk (ls\<lparr>bufferMutex := True\<rparr>) = (None, ls')"
  shows "flush marshal openOk ls =
           Some ((writeEntries marshal (logBuffer ls') ls')\<lparr>logBuffer := [], bufferMutex := False\<rparr>)"
  using assms by (simp add: flush_def)

lemma fullLogger_facts:
  "logFile fullLogger" "maxLogSize fullLogger \<le> fileSize (files fullLogger) Live"
  "maxLogFiles fullLogger = 5" "files fullLogger = fullLogFiles" "\<not> bufferMutex fullLogger"
  "logBuffer fullLogger \<noteq> []"
  by (simp_all add: fullLogger_def Start_def NewLoggerService_def fullLogFiles_def
      osOpenAppend_def fileSize_def)

lemma specRotate_full: "specRotate 5 fullLogFiles (Gen 5) = Some ''fourth''"
  by (simp add: specRotate_def specShift.simps osRemove_def osRename_def osOpenAppend_def
      fullLogFiles_def)

text \<open>
  Claim C2, as the code has it. A rotation (the live file has reached \<open>maxLogSize\<close>, the
  handle is open, \<open>maxLogFiles\<close> is at least 1, and the new live file can be created)
  returns no error and leaves: a fresh empty live file; the former live file as
  generation 1; each former generation \<open>k\<close> from 1 to \<open>maxLogFiles - 2\<close> as generation
  \<open>k + 1\<close>; no generation \<open>maxLogFiles\<close> (when \<open>maxLogFiles\<close> is at least 2); every
  generation outside 1 to \<open>maxLogFiles\<close> as it was. The former generation
  \<open>maxLogFiles - 1\<close> is deleted, not renamed: together with the live file the service
  keeps \<open>maxLogFiles\<close> files.
\<close>

theorem rotation_keeps_all_but_last_generation:
  assumes "logFile ls" and "maxLogSize ls \<le> fileSize (files ls) Live" and "1 \<le> maxLogFiles ls"
  shows "fst (rotateLogIfNeeded True ls) = None \<and>
         logFile (snd (rotateLogIfNeeded True ls)) \<and>
         files (snd (rotateLogIfNeeded True ls)) Live = Some [] \<and>
         files (snd (rotateLogIfNeeded True ls)) (Gen 1) = files ls Live \<and>
         (\<forall>k. 1 \<le> k \<and> k \<le> maxLogFiles ls - 2 \<longrightarrow>
              files (snd (rotateLogIfNeeded True ls)) (Gen (k + 1)) = files ls (Gen k)) \<and>
         (2 \<le> maxLogFiles ls \<longrightarrow>
              files (snd (rotateLogIfNeeded True ls)) (Gen (maxLogFiles ls)) = None) \<and>
         (\<forall>k. k < 1 \<or> maxLogFiles ls < k \<longrightarrow>
              files (snd (rotateLogIfNeeded True ls)) (Gen k) = files ls (Gen k))"
  unfolding rotateLogIfNeeded_rotates[OF assms]
  using assms(3) by (auto simp: rotatedFiles_def)

text \<open>
  The witness of the theorem of C2: a started default service whose live file holds
  10 MiB, with the generations 1 to 4 present.
\<close>

theorem rotation_keeps_all_but_last_generation_witness:
  "logFile fullLogger \<and> maxLogSize fullLogger \<le> fileSize (files fullLogger) Live \<and>
   1 \<le> maxLogFiles fullLogger \<and>
   files (snd (rotateLogIfNeeded True fullLogger)) Live = Some [] \<and>
   files (snd (rotateLogIfNeeded True fullLogger)) (Gen 1) = Some (replicate 10485760 (CHR ''x'')) \<and>
   files (snd (rotateLogIfNeeded True fullLogger)) (Gen 2) = Some ''first'' \<and>
   files (snd (rotateLogIfNeeded True fullLogger)) (Gen 3) = Some ''second'' \<and>
   files (snd (rotateLogIfNeeded True fullLogger)) (Gen 4) = Some ''third'' \<and>
   files (snd (rotateLogIfNeeded True fullLogger)) (Gen 5) = None"
proof -
  have h1: "logFile fullLogger" by (rule fullLogger_facts)
  have h2: "maxLogSize fullLogger \<le> fileSize (files fullLogger) Live" by (rule fullLogger_facts)
  have h3: "1 \<le> maxLogFiles fullLogger" by (simp add: fullLogger_facts)
  note r = rotation_keeps_all_but_last_generation[OF h1 h2 h3]
  have live: "files (snd (rotateLogIfNeeded True fullLogger)) Live = Some []"
    using r by blast
  have g1: "files (snd (rotateLogIfNeeded True fullLogger)) (Gen 1) = Some (replicate 10485760 (CHR ''x''))"
    using r by (simp add: fullLogger_facts fullLogFiles_def)
  have sh: "\<And>k. 1 \<le> k \<Longrightarrow> k \<le> 3 \<Longrightarrow>
      files (snd (rotateLogIfNeeded True fullLogger)) (Gen (k + 1)) = fullLogFiles (Gen k)"
    using r by (simp add: fullLogger_facts)
  have g2: "files (snd (rotateLogIfNeeded True fullLogger)) (Gen 2) = Some ''first''"
    using sh[of 1] by (simp add: fullLogFiles_def)
  have g3: "files (snd (rotateLogIfNeeded True fullLogger)) (Gen 3) = Some ''second''"
    using sh[of 2] by (simp add: fullLogFiles_def)
  have g4: "files (snd (rotateLogIfNeeded True fullLogger)) (Gen 4) = Some ''third''"
    using sh[of 3] by (simp add: fullLogFiles_def)
  have g5: "files (snd (rotateLogIfNeeded True fullLogger)) (Gen 5) = None"
    using r by (simp add: fullLogger_facts)
  from h1 h2 h3 live g1 g2 g3 g4 g5 show ?thesis by (intro conjI)
qed

text \<open>
  Claim C2 as the specification states it fails at generation \<open>maxLogFiles - 1\<close>. With
  \<open>maxLogFiles = 5\<close> the specification's rotation renames generation 4 to generation 5;
  the flush of the code removes generation 4 at the first turn of the loop
  (\<open>i == ls.maxLogFiles - 1\<close>), so that afterwards there is no generation 5 and
  generation 4 holds what generation 3 held.
\<close>

theorem rotation_drops_generation_counterexample:
  "files fullLogger (Gen 4) = Some ''fourth'' \<and>
   specRotate (maxLogFiles fullLogger) (files fullLogger) (Gen 5) = Some ''fourth'' \<and>
   map_option (\<lambda>ls. files ls (Gen 5)) (flush messageOnly True fullLogger) = Some None \<and>
   map_option (\<lambda>ls. files ls (Gen 4)) (flush messageOnly True fullLogger) = Some (Some ''third'')"
proof -
  let ?l1 = "fullLogger\<lparr>bufferMutex := True\<rparr>"
  let ?l2 = "?l1\<lparr>logFile := True, files := rotatedFiles 5 fullLogFiles\<rparr>"
  have sz: "maxLogSize fullLogger \<le> fileSize fullLogFiles Live"
    using fullLogger_facts(2) by (simp only: fullLogger_facts(4))
  have rot: "rotateLogIfNeeded True ?l1 = (None, ?l2)"
    using rotateLogIfNeeded_rotates[of ?l1] sz by (simp add: fullLogger_facts)
  have fl: "flush messageOnly True fullLogger =
              Some ((writeEntries messageOnly (logBuffer ?l2) ?l2)\<lparr>logBuffer := [], bufferMutex := False\<rparr>)"
    by (rule flush_rotates_first[OF fullLogger_facts(5) fullLogger_facts(6) rot])
  have 1: "files fullLogger (Gen 4) = Some ''fourth''"
    by (simp add: fullLogger_facts fullLogFiles_def)
  have 2: "specRotate (maxLogFiles fullLogger) (files fullLogger) (Gen 5) = Some ''fourth''"
    by (simp add: fullLogger_facts specRotate_full)
  have 3: "map_option (\<lambda>ls. files ls (Gen 5)) (flush messageOnly True fullLogger) = Some None"
    by (simp add: fl files_writeEntries_Gen rotatedFiles_def)
  have 4: "map_option (\<lambda>ls. files ls (Gen 4)) (flush messageOnly True fullLogger) = Some (Some ''third'')"
    by (simp add: fl files_writeEntries_Gen rotatedFiles_def fullLogFiles_def)
  from 1 2 3 4 show ?thesis by (intro conjI)
qed

section \<open>The configuration store\<close>

record GeneralConfig =
  AutoStart :: bool
  CheckInterval :: int
  SwitchDelay :: int
  EnableLogging :: bool
  LogLevel :: string
  ShowNotifications :: bool

text \<open>
  A slice \<open>[]Rule\<close> is a view of a backing array: the address of the array, a length
  and a capacity. The arrays live in a store, so that two slices on one array see each
  other's writes, as \<open>*ms.config\<close> and the copy that \<open>GetConfig\<close> returns do.
\<close>

record Slice =
  sArray :: nat
  sLen :: nat
  sCap :: nat

record Config =
  Rules :: Slice
  General :: GeneralConfig
  LastModified :: string

text \<open>What the JSON codec reads and writes: a configuration with its rules as a sequence.\<close>

record ConfigJSON =
  jsonRules :: "Rule list"
  jsonGeneral :: GeneralConfig
  jsonLastModified :: string

datatype configError =
    ConfigNotLoaded
  | IndexOutOfRange
  | MkdirFailed
  | MarshalFailed
  | WriteFailed
  | ReadFailed
  | ParseFailed
  | CreateDefaultFailed configError

text \<open>
  What the program takes from its surroundings: \<open>os.Getpid()\<close>; whether
  \<open>os.MkdirAll\<close>, \<open>ioutil.WriteFile\<close> and \<open>ioutil.ReadFile\<close> succeed;
  \<open>json.MarshalIndent\<close> and \<open>json.Unmarshal\<close> (\<open>None\<close> is an error); and the
  capacity the runtime gives to a newly allocated backing array, from the old capacity
  and the length needed (never less than the length needed, see \<open>newCap\<close>).
  A write that fails leaves the file as it was.
\<close>

record Env =
  pid :: int
  mkdirOk :: bool
  writeOk :: bool
  readOk :: bool
  marshalIndent :: "ConfigJSON \<Rightarrow> string option"
  unmarshal :: "string \<Rightarrow> ConfigJSON option"
  allocCap :: "nat \<Rightarrow> nat \<Rightarrow> nat"

text \<open>
  \<open>MatcherService\<close>, with the store of backing arrays (\<open>heap\<close>, and \<open>nextArray\<close> the
  next free address) and the file at \<open>configPath\<close> (\<open>None\<close> when there is none).
  \<open>ruleMutex\<close> tells whether the mutex is held; as for the log, a \<open>Lock()\<close> or
  \<open>RLock()\<close> on the mutex that the calling goroutine holds for writing never returns,
  and a call that never returns has the result \<open>None\<close>.
\<close>

record MatcherService =
  config :: "Config option"
  ruleMap :: ruleMap
  ruleMutex :: bool
  heap :: "nat \<Rightarrow> Rule list"
  nextArray :: nat
  configFile :: "string option"

definition NewMatcherService :: "string option \<Rightarrow> MatcherService" where
  "NewMatcherService file =
     \<lparr>config = None, ruleMap = [], ruleMutex = False, heap = (\<lambda>a. []), nextArray = 0,
      configFile = file\<rparr>"

definition zeroRule :: Rule where
  "zeroRule = \<lparr>AppName = [], WindowName = [], Input = [], Enabled = False, Priority = 0\<rparr>"

definition newCap :: "Env \<Rightarrow> nat \<Rightarrow> nat \<Rightarrow> nat" where
  "newCap env old needed = max needed (allocCap env old needed)"

text \<open>The rules a slice shows.\<close>

definition sliceRules :: "(nat \<Rightarrow> Rule list) \<Rightarrow> Slice \<Rightarrow> Rule list" where
  "sliceRules h s = take (sLen s) (h (sArray s))"

definition configRules :: "MatcherService \<Rightarrow> Rule list" where
  "configRules ms = (case config ms of None \<Rightarrow> [] | Some c \<Rightarrow> sliceRules (heap ms) (Rules c))"

text \<open>A new backing array of capacity \<open>c\<close> that starts with \<open>rules\<close>.\<close>

definition allocRules :: "Rule list \<Rightarrow> nat \<Rightarrow> MatcherService \<Rightarrow> Slice \<times> MatcherService" where
  "allocRules rules c ms =
     (\<lparr>sArray = nextArray ms, sLen = length rules, sCap = max c (length rules)\<rparr>,
      ms\<lparr>heap := (heap ms)(nextArray ms := rules @ replicate (c - length rules) zeroRule),
         nextArray := nextArray ms + 1\<rparr>)"

text \<open>
  \<open>append(s, rule)\<close>: in place when the capacity allows, which writes into the backing
  array that \<open>s\<close> shares; else into a new array.
\<close>

definition appendRuleSlice :: "Env \<Rightarrow> Slice \<Rightarrow> Rule \<Rightarrow> MatcherService \<Rightarrow> Slice \<times> MatcherService" where
  "appendRuleSlice env s rule ms =
     (if sLen s < sCap s
      then (s\<lparr>sLen := sLen s + 1\<rparr>,
            ms\<lparr>heap := (heap ms)(sArray s := (heap ms (sArray s))[sLen s := rule])\<rparr>)
      else allocRules (sliceRules (heap ms) s @ [rule]) (newCap env (sCap s) (sLen s + 1)) ms)"

text \<open>The method \<open>buildRuleMap\<close>: the index of the live configuration, empty when there is none.\<close>

definition rebuildRuleMap :: "MatcherService \<Rightarrow> MatcherService" where
  "rebuildRuleMap ms =
     ms\<lparr>ruleMap := (case config ms of
                      None \<Rightarrow> []
                    | Some c \<Rightarrow> buildRuleMap (sliceRules (heap ms) (Rules c)))\<rparr>"

text \<open>\<open>fmt.Sprintf("%d", n)\<close>.\<close>

function natDigits :: "nat \<Rightarrow> string" where
  "natDigits n =
     (if n < 10 then [''0123456789'' ! n]
      else natDigits (n div 10) @ [''0123456789'' ! (n mod 10)])"
  by pat_completeness auto
termination
  by (relation "measure (\<lambda>n. n)") auto

declare natDigits.simps [simp del]

definition Sprintf_d :: "int \<Rightarrow> string" where
  "Sprintf_d n = (if n < 0 then CHR ''-'' # natDigits (nat (- n)) else natDigits (nat n))"

definition toJSON :: "(nat \<Rightarrow> Rule list) \<Rightarrow> Config \<Rightarrow> ConfigJSON" where
  "toJSON h c =
     \<lparr>jsonRules = sliceRules h (Rules c), jsonGeneral = General c,
      jsonLastModified = LastModified c\<rparr>"

text \<open>
  \<open>SaveConfig\<close>. The result is the error returned (\<open>None\<close> is nil) and the service
  after the call. The deferred \<open>Unlock\<close> runs on every return.
\<close>

definition SaveConfig ::
  "Env \<Rightarrow> Config \<Rightarrow> MatcherService \<Rightarrow> (configError option \<times> MatcherService) option" where
  "SaveConfig env cfg ms =
     (if ruleMutex ms then None
      else
        let ms1 = ms\<lparr>ruleMutex := True\<rparr>
        in if \<not> mkdirOk env then Some (Some MkdirFailed, ms1\<lparr>ruleMutex := False\<rparr>)
           else
             let cfg' = cfg\<lparr>LastModified := Sprintf_d (pid env)\<rparr>
             in (case marshalIndent env (toJSON (heap ms1) cfg') of
                   None \<Rightarrow> Some (Some MarshalFailed, ms1\<lparr>ruleMutex := False\<rparr>)
                 | Some data \<Rightarrow>
                     if \<not> writeOk env then Some (Some WriteFailed, ms1\<lparr>ruleMutex := False\<rparr>)
                     else Some (None,
                            (rebuildRuleMap (ms1\<lparr>configFile := Some data, config := Some cfg'\<rparr>))
                              \<lparr>ruleMutex := False\<rparr>)))"

definition defaultRules :: "Rule list" where
  "defaultRules =
     [\<lparr>AppName = ''com.apple.Safari'', WindowName = [],
       Input = ''com.tencent.inputmethod.wetype.pinyin'', Enabled = True, Priority = 1\<rparr>,
      \<lparr>AppName = ''com.google.Chrome'', WindowName = [],
       Input = ''com.tencent.inputmethod.wetype.pinyin'', Enabled = True, Priority = 1\<rparr>,
      \<lparr>AppName = ''com.apple.Terminal'', WindowName = [],
       Input = ''com.apple.keylayout.ABC'', Enabled = True, Priority = 1\<rparr>,
      \<lparr>AppName = ''com.microsoft.VSCode'', WindowName = [],
       Input = ''com.apple.keylayout.ABC'', Enabled = True, Priority = 1\<rparr>]"

definition defaultGeneral :: GeneralConfig where
  "defaultGeneral =
     \<lparr>AutoStart = False, CheckInterval = 500, SwitchDelay = 100, EnableLogging = True,
      LogLevel = ''info'', ShowNotifications = True\<rparr>"

definition createDefaultConfig ::
  "Env \<Rightarrow> MatcherService \<Rightarrow> (configError option \<times> MatcherService) option" where
  "createDefaultConfig env ms =
     (case allocRules defaultRules (length defaultRules) ms of
        (rules, ms') \<Rightarrow>
          SaveConfig env \<lparr>Rules = rules, General = defaultGeneral, LastModified = []\<rparr> ms')"

text \<open>The defaults that \<open>LoadConfig\<close> fills in.\<close>

definition fillDefaults :: "GeneralConfig \<Rightarrow> GeneralConfig" where
  "fillDefaults g =
     (let g1 = (if CheckInterval g = 0 then g\<lparr>CheckInterval := 500\<rparr> else g);
          g2 = (if SwitchDelay g1 = 0 then g1\<lparr>SwitchDelay := 100\<rparr> else g1)
      in if LogLevel g2 = [] then g2\<lparr>LogLevel := ''info''\<rparr> else g2)"

text \<open>
  \<open>LoadConfig\<close>. It takes the mutex first and holds it to the end; when the file is
  absent it calls \<open>createDefaultConfig\<close>, and so \<open>SaveConfig\<close>, in between.
\<close>

definition LoadConfig ::
  "Env \<Rightarrow> MatcherService \<Rightarrow> (configError option \<times> MatcherService) option" where
  "LoadConfig env ms =
     (if ruleMutex ms then None
      else
        let ms1 = ms\<lparr>ruleMutex := True\<rparr>
        in (case (if configFile ms1 = None then createDefaultConfig env ms1
                  else Some (None, ms1)) of
              None \<Rightarrow> None
            | Some (Some err, ms2) \<Rightarrow>
                Some (Some (CreateDefaultFailed err), ms2\<lparr>ruleMutex := False\<rparr>)
            | Some (None, ms2) \<Rightarrow>
                (if \<not> readOk env then Some (Some ReadFailed, ms2\<lparr>ruleMutex := False\<rparr>)
                 else (case configFile ms2 of
                         None \<Rightarrow> Some (Some ReadFailed, ms2\<lparr>ruleMutex := False\<rparr>)
                       | Some data \<Rightarrow>
                           (case unmarshal env data of
                              None \<Rightarrow> Some (Some ParseFailed, ms2\<lparr>ruleMutex := False\<rparr>)
                            | Some v \<Rightarrow>
                                (case allocRules (jsonRules v)
                                        (newCap env 0 (length (jsonRules v))) ms2 of
                                   (rules, ms3) \<Rightarrow>
                                     Some (None,
                                       (rebuildRuleMap
                                          (ms3\<lparr>config :=
                                                 Some \<lparr>Rules = rules,
                                                       General = fillDefaults (jsonGeneral v),
                                                       LastModified = jsonLastModified v\<rparr>\<rparr>))
                                         \<lparr>ruleMutex := False\<rparr>)))))))"

text \<open>
  \<open>GetConfig\<close>: \<open>configCopy := *ms.config\<close> copies the struct, and with it the slice
  header; the backing array of the rules is the one of the live configuration.
\<close>

definition GetConfig :: "MatcherService \<Rightarrow> Config option option" where
  "GetConfig ms = (if ruleMutex ms then None else Some (config ms))"

definition AddRule ::
  "Env \<Rightarrow> Rule \<Rightarrow> MatcherService \<Rightarrow> (configError option \<times> MatcherService) option" where
  "AddRule env rule ms =
     (case GetConfig ms of
        None \<Rightarrow> None
      | Some None \<Rightarrow> Some (Some ConfigNotLoaded, ms)
      | Some (Some cfg) \<Rightarrow>
          let rule' = (if Priority rule = 0
                       then rule\<lparr>Priority := int (sLen (Rules cfg)) + 1\<rparr>
                       else rule)
          in (case appendRuleSlice env (Rules cfg) rule' ms of
                (rules, ms') \<Rightarrow> SaveConfig env (cfg\<lparr>Rules := rules\<rparr>) ms'))"

definition UpdateRule ::
  "Env \<Rightarrow> int \<Rightarrow> Rule \<Rightarrow> MatcherService \<Rightarrow> (configError option \<times> MatcherService) option" where
  "UpdateRule env index rule ms =
     (case GetConfig ms of
        None \<Rightarrow> None
      | Some None \<Rightarrow> Some (Some ConfigNotLoaded, ms)
      | Some (Some cfg) \<Rightarrow>
          if index < 0 \<or> index \<ge> int (sLen (Rules cfg)) then Some (Some IndexOutOfRange, ms)
          else SaveConfig env cfg
                 (ms\<lparr>heap := (heap ms)(sArray (Rules cfg) :=
                                  (heap ms (sArray (Rules cfg)))[nat index := rule])\<rparr>))"

text \<open>
  \<open>DeleteRule\<close>: \<open>append(config.Rules[:index], config.Rules[index+1:]...)\<close> fits the
  capacity, so it moves the rules after \<open>index\<close> one place down inside the shared array.
\<close>

definition DeleteRule ::
  "Env \<Rightarrow> int \<Rightarrow> MatcherService \<Rightarrow> (configError option \<times> MatcherService) option" where
  "DeleteRule env index ms =
     (case GetConfig ms of
        None \<Rightarrow> None
      | Some None \<Rightarrow> Some (Some ConfigNotLoaded, ms)
      | Some (Some cfg) \<Rightarrow>
          if index < 0 \<or> index \<ge> int (sLen (Rules cfg)) then Some (Some IndexOutOfRange, ms)
          else
            let a = heap ms (sArray (Rules cfg));
                n = sLen (Rules cfg);
                a' = take (nat index) a @ drop (nat index + 1) (take n a) @ drop (n - 1) a
            in SaveConfig env (cfg\<lparr>Rules := (Rules cfg)\<lparr>sLen := n - 1\<rparr>\<rparr>)
                 (ms\<lparr>heap := (heap ms)(sArray (Rules cfg) := a')\<rparr>))"

subsection \<open>Well-formed services and a concrete run\<close>

text \<open>
  The live configuration is well formed when its slice lies within its backing array:
  the length is at most the capacity, the capacity is the size of the array, and the
  array is an allocated one.
\<close>

definition wellFormed :: "MatcherService \<Rightarrow> bool" where
  "wellFormed ms =
     (case config ms of
        None \<Rightarrow> True
      | Some c \<Rightarrow> sLen (Rules c) \<le> sCap (Rules c) \<and>
                  sCap (Rules c) = length (heap ms (sArray (Rules c))) \<and>
                  sArray (Rules c) < nextArray ms)"

text \<open>
  A concrete surrounding for the runs below: process 4242, a file system that accepts
  every call, a codec that accepts one file, and arrays allocated at twice the length
  needed.
\<close>

definition safariRule :: Rule where
  "safariRule = \<lparr>AppName = ''Safari'', WindowName = [], Input = ''pinyin'', Enabled = True, Priority = 10\<rparr>"

definition sampleFile :: string where
  "sampleFile = ''rules: Safari -> pinyin, priority 10''"

definition sampleJSON :: ConfigJSON where
  "sampleJSON =
     \<lparr>jsonRules = [safariRule],
      jsonGeneral = \<lparr>AutoStart = False, CheckInterval = 0, SwitchDelay = 0,
                     EnableLogging = True, LogLevel = [], ShowNotifications = False\<rparr>,
      jsonLastModified = ''4242''\<rparr>"

definition sampleEnv :: Env where
  "sampleEnv =
     \<lparr>pid = 4242, mkdirOk = True, writeOk = True, readOk = True,
      marshalIndent = (\<lambda>v. Some (''lastModified: '' @ jsonLastModified v)),
      unmarshal = (\<lambda>data. if data = sampleFile then Some sampleJSON else None),
      allocCap = (\<lambda>old needed. 2 * needed)\<rparr>"

definition loadedService :: MatcherService where
  "loadedService =
     \<lparr>config = Some \<lparr>Rules = \<lparr>sArray = 0, sLen = 1, sCap = 2\<rparr>,
                     General = \<lparr>AutoStart = False, CheckInterval = 500, SwitchDelay = 100,
                                EnableLogging = True, LogLevel = ''info'',
                                ShowNotifications = False\<rparr>,
                     LastModified = ''4242''\<rparr>,
      ruleMap = [(''Safari'', [safariRule])],
      ruleMutex = False,
      heap = (\<lambda>a. [])(0 := [safariRule, zeroRule]),
      nextArray = 1,
      configFile = Some sampleFile\<rparr>"

definition otherRule :: Rule where
  "otherRule = \<lparr>AppName = ''Terminal'', WindowName = [], Input = ''abc'', Enabled = True, Priority = 0\<rparr>"

text \<open>
  The rule that \<open>AddRule\<close> stores: priority 0 is replaced by one more than the number
  of rules there are. And the surrounding of the concrete run with a configuration file
  that can no longer be written.
\<close>

definition withDefaultPriority :: "nat \<Rightarrow> Rule \<Rightarrow> Rule" where
  "withDefaultPriority n rule =
     (if Priority rule = 0 then rule\<lparr>Priority := int n + 1\<rparr> else rule)"

definition readOnlyEnv :: Env where
  "readOnlyEnv = sampleEnv\<lparr>writeOk := False\<rparr>"

lemma Sprintf_d_4242: "Sprintf_d 4242 = ''4242''"
  by (simp add: Sprintf_d_def natDigits.simps)

lemma safari_index: "buildRuleMap [safariRule] = [(''Safari'', [safariRule])]"
proof -
  have "collectRules [safariRule] [] = [(''Safari'', [safariRule])]"
    by (simp add: safariRule_def TrimSpace_def isSpace_def)
  then show ?thesis by (simp add: buildRuleMap_def sortRules_def sortOuter.simps)
qed

lemma LoadConfig_sample:
  "LoadConfig sampleEnv (NewMatcherService (Some sampleFile)) = Some (None, loadedService)"
  by (simp add: LoadConfig_def NewMatcherService_def sampleEnv_def sampleJSON_def
      allocRules_def newCap_def rebuildRuleMap_def sliceRules_def fillDefaults_def
      loadedService_def safari_index)

lemma loadedService_facts:
  "\<not> ruleMutex loadedService" "wellFormed loadedService" "configRules loadedService = [safariRule]"
  "configFile loadedService = Some sampleFile"
  by (simp_all add: loadedService_def wellFormed_def configRules_def sliceRules_def)

lemma SaveConfig_success:
  assumes "SaveConfig env cfg ms = Some (None, ms')"
  shows "\<exists>data. marshalIndent env (toJSON (heap ms) (cfg\<lparr>LastModified := Sprintf_d (pid env)\<rparr>)) = Some data \<and>
               ms' = rebuildRuleMap (ms\<lparr>configFile := Some data,
                                          config := Some (cfg\<lparr>LastModified := Sprintf_d (pid env)\<rparr>)\<rparr>) \<and>
               \<not> ruleMutex ms"
  using assms
  by (auto simp: SaveConfig_def rebuildRuleMap_def Let_def split: if_splits option.splits)

lemma SaveConfig_failure:
  assumes "SaveConfig env cfg ms = Some (Some err, ms')"
  shows "ms' = ms"
  using assms
  by (auto simp: SaveConfig_def Let_def split: if_splits option.splits)

lemma SaveConfig_loaded:
  "SaveConfig sampleEnv (the (config loadedService)) loadedService =
     Some (None, loadedService\<lparr>configFile := Some ''lastModified: 4242''\<rparr>)"
  by (simp add: SaveConfig_def loadedService_def sampleEnv_def Sprintf_d_4242 toJSON_def
      rebuildRuleMap_def sliceRules_def safari_index)

lemma LoadConfig_absent_blocks:
  assumes "\<not> ruleMutex ms" and "configFile ms = None"
  shows "LoadConfig env ms = None"
  using assms
  by (simp add: LoadConfig_def createDefaultConfig_def allocRules_def SaveConfig_def)

lemma appendRuleSlice_rules:
  assumes "sLen s \<le> sCap s" and "sCap s = length (heap ms (sArray s))"
    and "appendRuleSlice env s rule ms = (s', ms')"
  shows "sliceRules (heap ms') s' = sliceRules (heap ms) s @ [rule]"
proof (cases "sLen s < sCap s")
  case True
  then have "s' = s\<lparr>sLen := sLen s + 1\<rparr>"
    and "ms' = ms\<lparr>heap := (heap ms)(sArray s := (heap ms (sArray s))[sLen s := rule])\<rparr>"
    using assms(3) by (simp_all add: appendRuleSlice_def)
  then show ?thesis
    using True assms(2) by (simp add: sliceRules_def take_Suc_conv_app_nth)
next
  case False
  then have "(s', ms') =
      allocRules (sliceRules (heap ms) s @ [rule]) (newCap env (sCap s) (sLen s + 1)) ms"
    using assms(3) by (simp add: appendRuleSlice_def)
  then show ?thesis
    using assms(1,2) by (auto simp: allocRules_def sliceRules_def min_def)
qed

lemma AddRule_loaded:
  "AddRule sampleEnv otherRule loadedService =
     Some (None,
       loadedService
         \<lparr>config := Some \<lparr>Rules = \<lparr>sArray = 0, sLen = 2, sCap = 2\<rparr>,
                          General = General (the (config loadedService)),
                          LastModified = ''4242''\<rparr>,
          ruleMap := buildRuleMap [safariRule, otherRule\<lparr>Priority := 2\<rparr>],
          heap := (\<lambda>a. [])(0 := [safariRule, otherRule\<lparr>Priority := 2\<rparr>]),
          configFile := Some ''lastModified: 4242''\<rparr>)"
  by (simp add: AddRule_def GetConfig_def loadedService_def otherRule_def appendRuleSlice_def
      SaveConfig_def sampleEnv_def Sprintf_d_4242 toJSON_def rebuildRuleMap_def sliceRules_def
      Let_def)

lemma UpdateRule_loaded_fails:
  "UpdateRule readOnlyEnv 0 otherRule loadedService =
     Some (Some WriteFailed,
           loadedService\<lparr>heap := (\<lambda>a. [])(0 := [otherRule, zeroRule])\<rparr>)"
  by (simp add: UpdateRule_def GetConfig_def loadedService_def SaveConfig_def readOnlyEnv_def
      sampleEnv_def toJSON_def)

lemma LoadConfig_wellFormed:
  assumes "LoadConfig env ms = Some (None, ms')"
  shows "wellFormed ms'"
  using assms
  by (auto simp: LoadConfig_def createDefaultConfig_def allocRules_def SaveConfig_def
      rebuildRuleMap_def wellFormed_def newCap_def Let_def
      split: if_splits option.splits prod.splits)

lemma AddRule_failed_save_keeps_live_config:
  assumes "wellFormed ms" and "AddRule env rule ms = Some (Some err, ms')"
  shows "config ms' = config ms \<and> configRules ms' = configRules ms \<and>
         configFile ms' = configFile ms \<and> ruleMap ms' = ruleMap ms"
proof (cases "config ms")
  case None
  then show ?thesis
    using assms(2) by (auto simp: AddRule_def GetConfig_def split: if_splits)
next
  case (Some cfg)
  have nl: "\<not> ruleMutex ms"
    using assms(2) by (auto simp: AddRule_def GetConfig_def split: if_splits)
  let ?rule' = "if Priority rule = 0 then rule\<lparr>Priority := int (sLen (Rules cfg)) + 1\<rparr> else rule"
  obtain rules ms1 where ap: "appendRuleSlice env (Rules cfg) ?rule' ms = (rules, ms1)"
    by (cases "appendRuleSlice env (Rules cfg) ?rule' ms") auto
  have sv: "SaveConfig env (cfg\<lparr>Rules := rules\<rparr>) ms1 = Some (Some err, ms')"
    using assms(2) Some nl ap by (simp add: AddRule_def GetConfig_def Let_def)
  have eq: "ms' = ms1" by (rule SaveConfig_failure[OF sv])
  have wf: "sLen (Rules cfg) \<le> sCap (Rules cfg)"
    "sCap (Rules cfg) = length (heap ms (sArray (Rules cfg)))"
    "sArray (Rules cfg) < nextArray ms"
    using assms(1) Some by (simp_all add: wellFormed_def)
  show ?thesis
  proof (cases "sLen (Rules cfg) < sCap (Rules cfg)")
    case True
    then have "ms1 = ms\<lparr>heap := (heap ms)(sArray (Rules cfg) :=
                          (heap ms (sArray (Rules cfg)))[sLen (Rules cfg) := ?rule'])\<rparr>"
      using ap by (simp add: appendRuleSlice_def)
    then show ?thesis
      using Some eq by (simp add: configRules_def sliceRules_def)
  next
    case False
    then have "ms1 = snd (allocRules (sliceRules (heap ms) (Rules cfg) @ [?rule'])
                            (newCap env (sCap (Rules cfg)) (sLen (Rules cfg) + 1)) ms)"
      using ap by (simp add: appendRuleSlice_def)
    then show ?thesis
      using Some eq wf(3) by (simp add: allocRules_def configRules_def sliceRules_def)
  qed
qed

lemma LoadConfig_fills_defaults:
  assumes "LoadConfig env ms = Some (None, ms')"
  shows "\<exists>c. config ms' = Some c \<and> CheckInterval (General c) \<noteq> 0 \<and>
             SwitchDelay (General c) \<noteq> 0 \<and> LogLevel (General c) \<noteq> []"
  using assms
  by (auto simp: LoadConfig_def createDefaultConfig_def allocRules_def SaveConfig_def
      rebuildRuleMap_def fillDefaults_def Let_def
      split: if_splits option.splits prod.splits)

subsection \<open>Saving\<close>

text \<open>
  Claim C9. After a successful \<open>SaveConfig\<close> the live configuration's \<open>LastModified\<close>
  is the decimal rendering of the process id, and so is the \<open>lastModified\<close> of the
  configuration that was serialised into the file; two successful saves of one process
  therefore leave the same \<open>LastModified\<close>.
\<close>

theorem SaveConfig_stamps_process_id:
  assumes "SaveConfig env cfg1 ms1 = Some (None, ms1')"
    and "SaveConfig env cfg2 ms2 = Some (None, ms2')"
  shows "map_option LastModified (config ms1') = Some (Sprintf_d (pid env)) \<and>
         (\<exists>v data. marshalIndent env v = Some data \<and> configFile ms1' = Some data \<and>
              jsonLastModified v = Sprintf_d (pid env)) \<and>
         map_option LastModified (config ms2') = map_option LastModified (config ms1')"
proof -
  from SaveConfig_success[OF assms(1)] obtain d1 where
    d1: "marshalIndent env (toJSON (heap ms1) (cfg1\<lparr>LastModified := Sprintf_d (pid env)\<rparr>)) = Some d1"
    and m1: "ms1' = rebuildRuleMap (ms1\<lparr>configFile := Some d1,
                       config := Some (cfg1\<lparr>LastModified := Sprintf_d (pid env)\<rparr>)\<rparr>)"
    by blast
  from SaveConfig_success[OF assms(2)] obtain d2 where
    m2: "ms2' = rebuildRuleMap (ms2\<lparr>configFile := Some d2,
                       config := Some (cfg2\<lparr>LastModified := Sprintf_d (pid env)\<rparr>)\<rparr>)"
    by blast
  have a: "map_option LastModified (config ms1') = Some (Sprintf_d (pid env))"
    by (simp add: m1 rebuildRuleMap_def)
  have b: "map_option LastModified (config ms2') = Some (Sprintf_d (pid env))"
    by (simp add: m2 rebuildRuleMap_def)
  have f: "configFile ms1' = Some d1"
    by (simp add: m1 rebuildRuleMap_def)
  have c: "\<exists>v data. marshalIndent env v = Some data \<and> configFile ms1' = Some data \<and>
              jsonLastModified v = Sprintf_d (pid env)"
    using d1 f
    by (intro exI[of _ "toJSON (heap ms1) (cfg1\<lparr>LastModified := Sprintf_d (pid env)\<rparr>)"] exI[of _ d1])
      (simp add: toJSON_def)
  have e: "map_option LastModified (config ms2') = map_option LastModified (config ms1')"
    by (simp only: a b)
  show ?thesis by (intro conjI a c e)
qed

text \<open>
  The witness of the theorem of C9: saving the loaded configuration in process 4242.
\<close>

theorem SaveConfig_stamps_process_id_witness:
  "SaveConfig sampleEnv (the (config loadedService)) loadedService =
     Some (None, loadedService\<lparr>configFile := Some ''lastModified: 4242''\<rparr>) \<and>
   map_option LastModified (config (loadedService\<lparr>configFile := Some ''lastModified: 4242''\<rparr>)) =
     Some ''4242'' \<and>
   Sprintf_d (pid sampleEnv) = ''4242''"
proof -
  note s = SaveConfig_loaded
  have p: "Sprintf_d (pid sampleEnv) = ''4242''"
    by (simp add: sampleEnv_def Sprintf_d_4242)
  from SaveConfig_stamps_process_id[OF s s] p
  have "map_option LastModified (config (loadedService\<lparr>configFile := Some ''lastModified: 4242''\<rparr>)) =
     Some ''4242''" by simp
  with s p show ?thesis by (intro conjI)
qed

subsection \<open>Loading\<close>

text \<open>
  Claim C5 asks that \<open>LoadConfig\<close>, when there is no configuration file, writes the
  built-in default rules and returns successfully. The code does not return:
  \<open>LoadConfig\<close> holds \<open>ruleMutex\<close> when it calls \<open>createDefaultConfig\<close>, whose
  \<open>SaveConfig\<close> begins by locking the same mutex. On a new service with no file, in any
  surrounding, the call never returns, and nothing is written.
\<close>

theorem LoadConfig_without_file_never_returns:
  "LoadConfig env (NewMatcherService None) = None"
  by (rule LoadConfig_absent_blocks) (simp_all add: NewMatcherService_def)

text \<open>
  Claim C6. When the file is there and can be read but does not parse, \<open>LoadConfig\<close>
  returns the parse error and the service is exactly as before the call: the live
  configuration, the arrays of its rules, the rule index and the file.
\<close>

theorem LoadConfig_malformed_keeps_config:
  assumes "\<not> ruleMutex ms" and "configFile ms = Some data" and "readOk env"
    and "unmarshal env data = None"
  shows "LoadConfig env ms = Some (Some ParseFailed, ms)"
  using assms by (simp add: LoadConfig_def)

text \<open>
  The witness of the theorem of C6: the loaded service, after its file has been replaced
  by a truncated one.
\<close>

theorem LoadConfig_malformed_keeps_config_witness:
  "\<not> ruleMutex (loadedService\<lparr>configFile := Some ''{ rules: [''\<rparr>) \<and>
   configFile (loadedService\<lparr>configFile := Some ''{ rules: [''\<rparr>) = Some ''{ rules: ['' \<and>
   readOk sampleEnv \<and> unmarshal sampleEnv ''{ rules: ['' = None \<and>
   LoadConfig sampleEnv (loadedService\<lparr>configFile := Some ''{ rules: [''\<rparr>) =
     Some (Some ParseFailed, loadedService\<lparr>configFile := Some ''{ rules: [''\<rparr>) \<and>
   configRules (loadedService\<lparr>configFile := Some ''{ rules: [''\<rparr>) = [safariRule] \<and>
   ruleMap (loadedService\<lparr>configFile := Some ''{ rules: [''\<rparr>) = [(''Safari'', [safariRule])]"
proof -
  let ?ms = "loadedService\<lparr>configFile := Some ''{ rules: [''\<rparr>"
  have h1: "\<not> ruleMutex ?ms" by (simp add: loadedService_def)
  have h2: "configFile ?ms = Some ''{ rules: [''" by simp
  have h3: "readOk sampleEnv" by (simp add: sampleEnv_def)
  have h4: "unmarshal sampleEnv ''{ rules: ['' = None" by (simp add: sampleEnv_def sampleFile_def)
  have c1: "configRules ?ms = [safariRule]"
    by (simp add: loadedService_def configRules_def sliceRules_def)
  have c2: "ruleMap ?ms = [(''Safari'', [safariRule])]"
    by (simp add: loadedService_def)
  from h1 h2 h3 h4 c1 c2 LoadConfig_malformed_keeps_config[OF h1 h2 h3 h4]
  show ?thesis by (intro conjI)
qed

subsection \<open>Adding a rule\<close>

text \<open>
  Claim C10, as the code has it. After a successful \<open>AddRule\<close> on a well-formed service
  the live rules are the former ones followed by the stored rule, and the same rules were
  serialised into the file. The stored rule is the given one when its priority is not 0;
  when it is 0, the priority is replaced by the number of former rules plus 1, whatever
  the priorities of the former rules are. The stored priority is never 0.
\<close>

theorem AddRule_replaces_zero_priority:
  assumes "wellFormed ms" and "AddRule env rule ms = Some (None, ms')"
  shows "configRules ms' =
           configRules ms @ [withDefaultPriority (length (configRules ms)) rule] \<and>
         (\<exists>v data. marshalIndent env v = Some data \<and> configFile ms' = Some data \<and>
                   jsonRules v = configRules ms') \<and>
         (Priority rule = 0 \<longrightarrow>
            Priority (last (configRules ms')) = int (length (configRules ms)) + 1) \<and>
         (Priority rule \<noteq> 0 \<longrightarrow> last (configRules ms') = rule) \<and>
         Priority (last (configRules ms')) \<noteq> 0"
proof -
  from assms(2) obtain cfg where cfg: "config ms = Some cfg" and nl: "\<not> ruleMutex ms"
    by (auto simp: AddRule_def GetConfig_def split: if_splits option.splits)
  let ?rule' = "withDefaultPriority (sLen (Rules cfg)) rule"
  obtain rules ms1 where ap: "appendRuleSlice env (Rules cfg) ?rule' ms = (rules, ms1)"
    by (cases "appendRuleSlice env (Rules cfg) ?rule' ms") auto
  have sv: "SaveConfig env (cfg\<lparr>Rules := rules\<rparr>) ms1 = Some (None, ms')"
    using assms(2) cfg nl ap
    by (simp add: AddRule_def GetConfig_def withDefaultPriority_def Let_def)
  have wf: "sLen (Rules cfg) \<le> sCap (Rules cfg)"
    "sCap (Rules cfg) = length (heap ms (sArray (Rules cfg)))"
    using assms(1) cfg by (simp_all add: wellFormed_def)
  have len: "length (configRules ms) = sLen (Rules cfg)"
    using wf cfg by (simp add: configRules_def sliceRules_def)
  have r1: "sliceRules (heap ms1) rules = configRules ms @ [?rule']"
    using appendRuleSlice_rules[OF wf ap] cfg by (simp add: configRules_def)
  from SaveConfig_success[OF sv] obtain data where
    d: "marshalIndent env (toJSON (heap ms1) (cfg\<lparr>Rules := rules, LastModified := Sprintf_d (pid env)\<rparr>)) = Some data"
    and m: "ms' = rebuildRuleMap (ms1\<lparr>configFile := Some data,
              config := Some (cfg\<lparr>Rules := rules, LastModified := Sprintf_d (pid env)\<rparr>)\<rparr>)"
    by auto
  have cm: "configRules ms' = sliceRules (heap ms1) rules"
    by (simp add: m rebuildRuleMap_def configRules_def)
  have a: "configRules ms' = configRules ms @ [withDefaultPriority (length (configRules ms)) rule]"
    by (simp only: cm r1 len)
  have b: "\<exists>v data. marshalIndent env v = Some data \<and> configFile ms' = Some data \<and>
                   jsonRules v = configRules ms'"
    using d
    by (intro exI[of _ "toJSON (heap ms1) (cfg\<lparr>Rules := rules, LastModified := Sprintf_d (pid env)\<rparr>)"]
          exI[of _ data])
      (simp add: cm toJSON_def, simp add: m rebuildRuleMap_def)
  have c: "Priority (last (configRules ms')) \<noteq> 0"
    by (simp add: a withDefaultPriority_def)
  have e: "Priority rule \<noteq> 0 \<longrightarrow> last (configRules ms') = rule"
    by (simp add: a withDefaultPriority_def)
  have z: "Priority rule = 0 \<longrightarrow>
            Priority (last (configRules ms')) = int (length (configRules ms)) + 1"
    by (simp add: a withDefaultPriority_def)
  show ?thesis by (intro conjI a b z e c)
qed

text \<open>
  The witness of the theorem of C10: a rule of priority 0 added to the loaded service,
  which holds one rule.
\<close>

theorem AddRule_replaces_zero_priority_witness:
  "wellFormed loadedService \<and>
   map_option fst (AddRule sampleEnv otherRule loadedService) = Some None \<and>
   Priority otherRule = 0 \<and>
   map_option (\<lambda>r. configRules (snd r)) (AddRule sampleEnv otherRule loadedService) =
     Some [safariRule, otherRule\<lparr>Priority := 2\<rparr>]"
proof -
  let ?ms' = "loadedService
         \<lparr>config := Some \<lparr>Rules = \<lparr>sArray = 0, sLen = 2, sCap = 2\<rparr>,
                          General = General (the (config loadedService)),
                          LastModified = ''4242''\<rparr>,
          ruleMap := buildRuleMap [safariRule, otherRule\<lparr>Priority := 2\<rparr>],
          heap := (\<lambda>a. [])(0 := [safariRule, otherRule\<lparr>Priority := 2\<rparr>]),
          configFile := Some ''lastModified: 4242''\<rparr>"
  have w: "wellFormed loadedService" by (rule loadedService_facts)
  have p: "Priority otherRule = 0" by (simp add: otherRule_def)
  from AddRule_replaces_zero_priority[OF w AddRule_loaded]
  have "configRules ?ms' =
          configRules loadedService @ [withDefaultPriority (length (configRules loadedService)) otherRule]"
    by blast
  then have r: "configRules ?ms' = [safariRule, otherRule\<lparr>Priority := 2\<rparr>]"
    by (simp add: loadedService_facts withDefaultPriority_def p)
  have 1: "map_option fst (AddRule sampleEnv otherRule loadedService) = Some None"
    by (simp add: AddRule_loaded)
  have 2: "map_option (\<lambda>r. configRules (snd r)) (AddRule sampleEnv otherRule loadedService) =
     Some [safariRule, otherRule\<lparr>Priority := 2\<rparr>]"
    using r by (simp add: AddRule_loaded)
  from w 1 p 2 show ?thesis by (intro conjI)
qed

text \<open>
  Claim C10 calls the replacement priority the lowest precedence. It is not in general:
  the loaded service holds one rule of priority 10; a rule added with priority 0 is stored
  with priority 2, which ranks before 10.
\<close>

theorem AddRule_priority_not_lowest_counterexample:
  "Priority otherRule = 0 \<and>
   map Priority (configRules loadedService) = [10] \<and>
   map_option (\<lambda>r. map Priority (configRules (snd r))) (AddRule sampleEnv otherRule loadedService) =
     Some [10, 2]"
  by (simp add: AddRule_loaded loadedService_facts, simp add: otherRule_def safariRule_def
      loadedService_def configRules_def sliceRules_def)

subsection \<open>Updating a rule when the save fails\<close>

text \<open>
  Claim C4 asks that a rule operation whose save fails leaves the live configuration as it
  was. \<open>UpdateRule\<close> does not: it writes the new rule through the slice of the copy that
  \<open>GetConfig\<close> returned, which is the backing array of the live configuration, before
  \<open>SaveConfig\<close> runs. The service is loaded from the sample file; then the file can no
  longer be written. \<open>UpdateRule\<close> returns the write error, the file and the rule index
  are as before, and the live configuration shows the new rule.
\<close>

theorem UpdateRule_failed_save_changes_live_config:
  "LoadConfig sampleEnv (NewMatcherService (Some sampleFile)) = Some (None, loadedService) \<and>
   configRules loadedService = [safariRule] \<and>
   map_option fst (UpdateRule readOnlyEnv 0 otherRule loadedService) = Some (Some WriteFailed) \<and>
   map_option (\<lambda>r. configRules (snd r)) (UpdateRule readOnlyEnv 0 otherRule loadedService) =
     Some [otherRule] \<and>
   map_option (\<lambda>r. configFile (snd r)) (UpdateRule readOnlyEnv 0 otherRule loadedService) =
     Some (Some sampleFile) \<and>
   map_option (\<lambda>r. ruleMap (snd r)) (UpdateRule readOnlyEnv 0 otherRule loadedService) =
     Some [(''Safari'', [safariRule])] \<and>
   safariRule \<noteq> otherRule"
proof -
  have 1: "LoadConfig sampleEnv (NewMatcherService (Some sampleFile)) = Some (None, loadedService)"
    by (rule LoadConfig_sample)
  have 2: "configRules loadedService = [safariRule]"
    by (rule loadedService_facts)
  have 3: "map_option fst (UpdateRule readOnlyEnv 0 otherRule loadedService) = Some (Some WriteFailed)"
    by (simp add: UpdateRule_loaded_fails)
  have 4: "map_option (\<lambda>r. configRules (snd r)) (UpdateRule readOnlyEnv 0 otherRule loadedService) =
     Some [otherRule]"
    by (simp add: UpdateRule_loaded_fails, simp add: loadedService_def configRules_def sliceRules_def)
  have 5: "map_option (\<lambda>r. configFile (snd r)) (UpdateRule readOnlyEnv 0 otherRule loadedService) =
     Some (Some sampleFile)"
    by (simp add: UpdateRule_loaded_fails loadedService_facts)
  have 6: "map_option (\<lambda>r. ruleMap (snd r)) (UpdateRule readOnlyEnv 0 otherRule loadedService) =
     Some [(''Safari'', [safariRule])]"
    by (simp add: UpdateRule_loaded_fails, simp add: loadedService_def)
  have 7: "safariRule \<noteq> otherRule"
    by (simp add: safariRule_def otherRule_def)
  show ?thesis by (intro conjI 1 2 3 4 5 6 7)
qed

end
